theory Spec2Isabelle
  imports Complex_Main
begin

section \<open>JavaScript numbers, strings and paths\<close>

text \<open>
  Image dimensions, byte counts, quality levels and the options \<open>tilePx\<close>, \<open>overlapPx\<close>,
  \<open>maxBytes\<close>, \<open>maxLongEdge\<close>, \<open>minCropSize\<close> are integers (the tool schema in the server
  demands \<open>z.number().int()\<close>, the call site passes \<open>minCropSize: 768\<close>); they are modelled
  as \<open>int\<close>. Fractions (the scale factor, \<open>height * 0.2\<close>, \<open>minSize * 0.5\<close>) are modelled
  as exact rationals; \<open>Math.round\<close> rounds halves towards plus infinity. On integers of
  the size of image dimensions the doubles of the crop planner round to the same integers:
  \<open>n * 0.2\<close>, \<open>n * 0.4\<close> and \<open>n * 0.6\<close> are never within a tenth of a half-integer,
  \<open>n * 0.25\<close>, \<open>n * 0.5\<close> and \<open>n * 1.5\<close> are exact, and where \<open>n * 0.3\<close> is a half-integer
  the double product is that half-integer. The scale factor of the source is a double and
  the pixel sizes of a resize are rounded from double products; rounded from the exact
  products they differ on rare inputs (\<open>45 * 0.7\<close> rounds to 31 as a double and to 32
  exactly). These sizes only reach the image library as the target of a resize, and the
  statements on the search hold for every library.
\<close>

definition js_round :: "rat \<Rightarrow> int" where
  "js_round q = \<lfloor>q + 1 / 2\<rfloor>"

text \<open>\<open>Math.ceil(a / b)\<close> on integers, exact for every divisor but 0. For \<open>b = 0\<close> (that is
  \<open>tilePx = overlapPx\<close>, outside the contract \<open>overlapPx < tilePx\<close> of the tiler) JavaScript
  yields an infinity or NaN where HOL yields 0: there the model has an empty grid where the
  loops of the source do not end for an image wider and taller than the overlap. The
  statements on the geometry and the number of the tiles assume \<open>overlapPx < tilePx\<close>.\<close>

definition js_ceil_div :: "int \<Rightarrow> int \<Rightarrow> int" where
  "js_ceil_div a b = \<lceil>rat_of_int a / rat_of_int b\<rceil>"

definition digit_char :: "nat \<Rightarrow> char" where
  "digit_char d = char_of (48 + d)"

text \<open>A non-negative integer inside a template literal: its decimal digits.\<close>

function show_nat :: "nat \<Rightarrow> string" where
  "show_nat n = (if n < 10 then [digit_char n] else show_nat (n div 10) @ [digit_char (n mod 10)])"
  by pat_completeness auto
termination
  by (relation "measure id") auto

definition endsWith :: "string \<Rightarrow> string \<Rightarrow> bool" where
  "endsWith s suf = (length suf \<le> length s \<and> drop (length s - length suf) s = suf)"

text \<open>\<open>path.join(dir, file)\<close> for a file name without separators and a directory that is
  already normalised: the directory, a separator, the file name. For another directory
  (a trailing separator, a leading \<open>./\<close>) \<open>path.join\<close> normalises the directory part; the
  file name at the end is the same.\<close>

definition join :: "string \<Rightarrow> string \<Rightarrow> string" where
  "join dir file = dir @ ''/'' @ file"

definition toLowerCase_char :: "char \<Rightarrow> char" where
  "toLowerCase_char c =
     (let n = (of_char c :: nat) in if 65 \<le> n \<and> n \<le> 90 then char_of (n + 32) else c)"

definition is_lower_alnum :: "char \<Rightarrow> bool" where
  "is_lower_alnum c =
     (let n = (of_char c :: nat) in (97 \<le> n \<and> n \<le> 122) \<or> (48 \<le> n \<and> n \<le> 57))"

text \<open>\<open>s.replace(/[^a-z0-9]+/g, "_")\<close>: every maximal run of other characters becomes one
  underscore. The flag says that the previous character belonged to such a run.\<close>

fun replace_runs :: "bool \<Rightarrow> string \<Rightarrow> string" where
  "replace_runs in_run [] = []"
| "replace_runs in_run (c # cs) =
     (if is_lower_alnum c then c # replace_runs False cs
      else if in_run then replace_runs True cs
      else CHR ''_'' # replace_runs True cs)"

definition sanitizeName :: "string \<Rightarrow> string" where
  "sanitizeName name = replace_runs False (map toLowerCase_char name)"

section \<open>Data model\<close>

datatype format = Webp | Jpeg

datatype error =
    InvalidDimensions    \<comment> \<open>\<open>new Error("Invalid image dimensions")\<close>\<close>
  | EncodeFailed int     \<comment> \<open>\<open>new Error(`Failed to encode image to meet size constraint of ${maxBytes} bytes`)\<close>\<close>
  | SharpError           \<comment> \<open>a rejection of the image library outside every \<open>try\<close>\<close>

record region =
  reg_left :: int
  reg_top :: int
  reg_width :: int
  reg_height :: int

record encode_options =
  maxBytes :: int
  maxLongEdge :: int
  preferFormat :: format

record encoded_image =
  img_path :: string
  img_bytes :: int
  img_width :: int
  img_height :: int
  img_format :: format
  img_quality :: int
  img_scaleFactor :: rat

record tiling_options =
  tilePx :: int
  overlapPx :: int
  t_maxBytes :: int
  t_maxLongEdge :: int
  t_preferFormat :: format

record tile =
  tile_path :: string
  tile_x :: int
  tile_y :: int
  tile_w :: int
  tile_h :: int
  tile_bytes :: int
  tile_width :: int
  tile_height :: int

record crop_options =
  c_maxBytes :: int
  c_maxLongEdge :: int
  c_preferFormat :: format
  minCropSize :: int

record crop_region =
  cr_name :: string
  cr_x :: int
  cr_y :: int
  cr_w :: int
  cr_h :: int

record crop =
  crop_path :: string
  crop_name :: string
  crop_x :: int
  crop_y :: int
  crop_w :: int
  crop_h :: int
  crop_bytes :: int
  crop_width :: int
  crop_height :: int

section \<open>The image library as a parameter\<close>

text \<open>
  The library \<open>sharp\<close> and the file system are not part of the repository. For the one
  input file of a run they are a parameter of the model, one function for each call the
  source makes:
  \<^item> \<open>sharp_metadata r\<close> is what \<open>metadata()\<close> reports as \<open>(width || 0, height || 0)\<close> for the
    input, after \<open>extract(r)\<close> when a region is given; \<open>None\<close> when the call rejects;
  \<^item> \<open>sharp_info p\<close> is what \<open>encodePipeline.clone().metadata()\<close> reports as
    \<open>(width || 0, height || 0)\<close> for the encode pipeline \<open>p\<close>, before anything is written;
    \<open>None\<close> when the call rejects;
  \<^item> \<open>sharp_toFile path p\<close> is the file that \<open>encodePipeline.toFile(path)\<close> writes, with its
    pixel dimensions and its size on disk; \<open>None\<close> when the call (or the \<open>statSync\<close> after
    it) throws.
\<close>

record pipeline =
  pl_extract :: "region option"
  pl_resize :: "(int \<times> int) option"
  pl_format :: format
  pl_quality :: int

record written_file =
  file_width :: int
  file_height :: int
  file_size :: int

record sharp =
  sharp_metadata :: "region option \<Rightarrow> (int \<times> int) option"
  sharp_info :: "pipeline \<Rightarrow> (int \<times> int) option"
  sharp_toFile :: "string \<Rightarrow> pipeline \<Rightarrow> written_file option"

text \<open>What one attempt reads (lines 142 to 147, 192 to 197): \<open>width\<close> and \<open>height\<close> from the
  \<open>metadata()\<close> of the pipeline, then \<open>toFile\<close>, whose own result is discarded, then \<open>bytes\<close>
  from \<open>statSync\<close> of the file just written. \<open>None\<close> when one of the calls throws.\<close>

record sharp_output =
  out_width :: int
  out_height :: int
  out_bytes :: int

definition run_pipeline :: "sharp \<Rightarrow> string \<Rightarrow> pipeline \<Rightarrow> sharp_output option" where
  "run_pipeline lib path p =
     (case sharp_info lib p of
        None \<Rightarrow> None
      | Some (width, height) \<Rightarrow>
          (case sharp_toFile lib path p of
             None \<Rightarrow> None
           | Some file \<Rightarrow> Some \<lparr>out_width = width, out_height = height, out_bytes = file_size file\<rparr>))"

section \<open>encodeToFit (the override in tiles.js, with region support)\<close>

text \<open>
  \<open>encode.js\<close> defines \<open>ImageEncoder.encodeToFit\<close> without a region; \<open>tiles.js\<close> replaces it
  on the prototype when the module is loaded, with the same search and an optional region.
  The replacement is the method every caller runs, and the one modelled here.
\<close>

definition extension :: "format \<Rightarrow> string" where
  "extension fmt = (if fmt = Webp then ''webp'' else ''jpg'')"

definition finalOutputPath :: "string \<Rightarrow> format \<Rightarrow> string" where
  "finalOutputPath outputPath fmt =
     (if endsWith outputPath (''.'' @ extension fmt) then outputPath
      else outputPath @ ''.'' @ extension fmt)"

definition qualityLevels :: "int list" where
  "qualityLevels = [95, 90, 85, 80, 75, 70, 65, 60, 55, 50, 45, 40, 35, 30, 25, 20]"

definition scaleFactors :: "rat list" where
  "scaleFactors = [9 / 10, 8 / 10, 7 / 10, 6 / 10, 5 / 10, 4 / 10, 3 / 10, 25 / 100, 2 / 10]"

definition make_result :: "string \<Rightarrow> format \<Rightarrow> int \<Rightarrow> rat \<Rightarrow> sharp_output \<Rightarrow> encoded_image" where
  "make_result finalPath fmt quality scaleFactor out =
     \<lparr>img_path = finalPath, img_bytes = out_bytes out, img_width = out_width out,
      img_height = out_height out, img_format = fmt, img_quality = quality,
      img_scaleFactor = scaleFactor\<rparr>"

text \<open>The body of the \<open>try\<close> in the quality loop (lines 122 to 156): the pipeline is resized
  only if \<open>scaleFactor < 1\<close>.\<close>

definition quality_phase_attempt ::
  "sharp \<Rightarrow> string \<Rightarrow> format \<Rightarrow> region option \<Rightarrow> int \<Rightarrow> int \<Rightarrow> rat \<Rightarrow> int \<Rightarrow> encoded_image option" where
  "quality_phase_attempt lib finalPath fmt reg originalWidth originalHeight scaleFactor quality =
     (let resize = (if scaleFactor < 1
                    then Some (js_round (of_int originalWidth * scaleFactor),
                               js_round (of_int originalHeight * scaleFactor))
                    else None)
      in map_option (make_result finalPath fmt quality scaleFactor)
           (run_pipeline lib finalPath
              \<lparr>pl_extract = reg, pl_resize = resize, pl_format = fmt, pl_quality = quality\<rparr>))"

text \<open>The body of the \<open>try\<close> in the scale loop (lines 174 to 206): always resized.\<close>

definition scale_phase_attempt ::
  "sharp \<Rightarrow> string \<Rightarrow> format \<Rightarrow> region option \<Rightarrow> int \<Rightarrow> int \<Rightarrow> rat \<Rightarrow> int \<Rightarrow> encoded_image option" where
  "scale_phase_attempt lib finalPath fmt reg originalWidth originalHeight scaleFactor quality =
     (let resize = Some (js_round (of_int originalWidth * scaleFactor),
                         js_round (of_int originalHeight * scaleFactor))
      in map_option (make_result finalPath fmt quality scaleFactor)
           (run_pipeline lib finalPath
              \<lparr>pl_extract = reg, pl_resize = resize, pl_format = fmt, pl_quality = quality\<rparr>))"

text \<open>
  The state of the search is the variable \<open>bestResult\<close> together with a log of every
  attempt made so far, in order. The log is not in the source: it only records what the
  loops do, so that statements about "every attempt" can be written down. An attempt whose
  \<open>att_result\<close> is \<open>None\<close> threw.
\<close>

record attempt =
  att_scale :: rat
  att_quality :: int
  att_result :: "encoded_image option"

record search =
  bestResult :: "encoded_image option"
  attempts :: "attempt list"

definition record_attempt :: "rat \<Rightarrow> int \<Rightarrow> encoded_image option \<Rightarrow> search \<Rightarrow> search" where
  "record_attempt scaleFactor quality res st =
     st\<lparr>attempts := attempts st @ [\<lparr>att_scale = scaleFactor, att_quality = quality, att_result = res\<rparr>]\<rparr>"

text \<open>\<open>for (const quality of qualityLevels) { try { ... } catch { break; } }\<close>\<close>

fun quality_loop ::
  "(rat \<Rightarrow> int \<Rightarrow> encoded_image option) \<Rightarrow> int \<Rightarrow> rat \<Rightarrow> int list \<Rightarrow> search \<Rightarrow> search" where
  "quality_loop run mb scaleFactor [] st = st"
| "quality_loop run mb scaleFactor (quality # rest) st =
     (case run scaleFactor quality of
        None \<Rightarrow> record_attempt scaleFactor quality None st
      | Some result \<Rightarrow>
          if img_bytes result \<le> mb
          then (record_attempt scaleFactor quality (Some result) st)\<lparr>bestResult := Some result\<rparr>
          else quality_loop run mb scaleFactor rest
                 ((record_attempt scaleFactor quality (Some result) st)\<lparr>bestResult := Some result\<rparr>))"

definition within_budget :: "int \<Rightarrow> encoded_image option \<Rightarrow> bool" where
  "within_budget mb best = (case best of None \<Rightarrow> False | Some b \<Rightarrow> img_bytes b \<le> mb)"

text \<open>\<open>for (const newScaleFactor of scaleFactors) { scaleFactor = Math.min(...); ...;
  if (bestResult && bestResult.bytes <= maxBytes) break; }\<close>\<close>

fun scale_loop ::
  "(rat \<Rightarrow> int \<Rightarrow> encoded_image option) \<Rightarrow> int \<Rightarrow> rat \<Rightarrow> rat list \<Rightarrow> search \<Rightarrow> search" where
  "scale_loop run mb scaleFactor [] st = st"
| "scale_loop run mb scaleFactor (newScaleFactor # rest) st =
     (let scaleFactor' = min scaleFactor newScaleFactor;
          st' = quality_loop run mb scaleFactor' qualityLevels st
      in if within_budget mb (bestResult st') then st'
         else scale_loop run mb scaleFactor' rest st')"

definition initialScale :: "int \<Rightarrow> int \<Rightarrow> int \<Rightarrow> rat" where
  "initialScale originalWidth originalHeight mle =
     (let longEdge = max originalWidth originalHeight
      in if longEdge > mle then of_int mle / of_int longEdge else 1)"

text \<open>The search of one call, from the metadata on: the final \<open>bestResult\<close> and the log.\<close>

definition encode_search ::
  "sharp \<Rightarrow> string \<Rightarrow> encode_options \<Rightarrow> region option \<Rightarrow> int \<Rightarrow> int \<Rightarrow> search" where
  "encode_search lib outputPath options reg originalWidth originalHeight =
     (let scaleFactor = initialScale originalWidth originalHeight (maxLongEdge options);
          fmt = preferFormat options;
          finalPath = finalOutputPath outputPath fmt;
          st = quality_loop
                 (quality_phase_attempt lib finalPath fmt reg originalWidth originalHeight)
                 (maxBytes options) scaleFactor qualityLevels
                 \<lparr>bestResult = None, attempts = []\<rparr>
      in if \<not> within_budget (maxBytes options) (bestResult st)
         then scale_loop
                (scale_phase_attempt lib finalPath fmt reg originalWidth originalHeight)
                (maxBytes options) scaleFactor scaleFactors st
         else st)"

definition encodeToFit_attempts ::
  "sharp \<Rightarrow> string \<Rightarrow> encode_options \<Rightarrow> region option \<Rightarrow> attempt list" where
  "encodeToFit_attempts lib outputPath options reg =
     (case sharp_metadata lib reg of
        None \<Rightarrow> []
      | Some (originalWidth, originalHeight) \<Rightarrow>
          attempts (encode_search lib outputPath options reg originalWidth originalHeight))"

definition encodeToFit ::
  "sharp \<Rightarrow> string \<Rightarrow> encode_options \<Rightarrow> region option \<Rightarrow> error + encoded_image" where
  "encodeToFit lib outputPath options reg =
     (case sharp_metadata lib reg of
        None \<Rightarrow> Inl SharpError
      | Some (originalWidth, originalHeight) \<Rightarrow>
          (case bestResult (encode_search lib outputPath options reg originalWidth originalHeight) of
             None \<Rightarrow> Inl (EncodeFailed (maxBytes options))
           | Some best \<Rightarrow> Inr best))"

section \<open>generateTiles\<close>

text \<open>The geometry of grid cell \<open>(row, col)\<close> (lines 42 to 57, 65 to 68). The width and the
  height are computed from the nominal origin, then the origin of a last column or row is
  moved. \<open>Math.round\<close> of these integers is the identity.\<close>

definition tile_region :: "int \<Rightarrow> int \<Rightarrow> int \<Rightarrow> int \<Rightarrow> int \<Rightarrow> int \<Rightarrow> int \<Rightarrow> int \<Rightarrow> region" where
  "tile_region imageWidth imageHeight tpx stride cols rows row col =
     (let x = col * stride;
          y = row * stride;
          actualTileWidth = (if col = cols - 1 then imageWidth - x else min tpx (imageWidth - x));
          actualTileHeight = (if row = rows - 1 then imageHeight - y else min tpx (imageHeight - y));
          x' = (if col = cols - 1 \<and> cols > 1 then max 0 (imageWidth - tpx) else x);
          y' = (if row = rows - 1 \<and> rows > 1 then max 0 (imageHeight - tpx) else y)
      in \<lparr>reg_left = x', reg_top = y', reg_width = actualTileWidth, reg_height = actualTileHeight\<rparr>)"

definition tileFileName :: "int \<Rightarrow> int \<Rightarrow> format \<Rightarrow> string" where
  "tileFileName row col fmt =
     ''tile_'' @ show_nat (nat row) @ ''_'' @ show_nat (nat col) @ ''.'' @ extension fmt"

text \<open>The cells in the order of the two \<open>for\<close> loops: rows outside, columns inside.\<close>

definition grid_cells :: "int \<Rightarrow> int \<Rightarrow> (int \<times> int) list" where
  "grid_cells rows cols =
     concat (map (\<lambda>row. map (\<lambda>col. (row, col)) (map int [0..<nat cols])) (map int [0..<nat rows]))"

definition encode_tile ::
  "sharp \<Rightarrow> string \<Rightarrow> tiling_options \<Rightarrow> int \<Rightarrow> int \<Rightarrow> int \<Rightarrow> int \<Rightarrow> int \<Rightarrow> int \<Rightarrow> int \<Rightarrow> error + tile" where
  "encode_tile lib outputDir options imageWidth imageHeight stride cols rows row col =
     (let r = tile_region imageWidth imageHeight (tilePx options) stride cols rows row col;
          tilePath = join outputDir (tileFileName row col (t_preferFormat options))
      in (case encodeToFit lib tilePath
                 \<lparr>maxBytes = t_maxBytes options,
                  maxLongEdge = min (t_maxLongEdge options) (tilePx options),
                  preferFormat = t_preferFormat options\<rparr> (Some r) of
            Inl e \<Rightarrow> Inl e
          | Inr encoded \<Rightarrow>
              Inr \<lparr>tile_path = img_path encoded, tile_x = reg_left r, tile_y = reg_top r,
                   tile_w = reg_width r, tile_h = reg_height r, tile_bytes = img_bytes encoded,
                   tile_width = img_width encoded, tile_height = img_height encoded\<rparr>))"

text \<open>The loop body has no \<open>try\<close>: the first error ends the loops and is the outcome.\<close>

fun tiles_loop :: "(int \<times> int \<Rightarrow> error + tile) \<Rightarrow> (int \<times> int) list \<Rightarrow> error + tile list" where
  "tiles_loop enc [] = Inr []"
| "tiles_loop enc (cell # cells) =
     (case enc cell of
        Inl e \<Rightarrow> Inl e
      | Inr t \<Rightarrow> (case tiles_loop enc cells of Inl e \<Rightarrow> Inl e | Inr ts \<Rightarrow> Inr (t # ts)))"

definition generateTiles :: "sharp \<Rightarrow> string \<Rightarrow> tiling_options \<Rightarrow> error + tile list" where
  "generateTiles lib outputDir options =
     (case sharp_metadata lib None of
        None \<Rightarrow> Inl SharpError
      | Some (imageWidth, imageHeight) \<Rightarrow>
          if imageWidth = 0 \<or> imageHeight = 0 then Inl InvalidDimensions
          else
            let stride = tilePx options - overlapPx options;
                cols = js_ceil_div (imageWidth - overlapPx options) stride;
                rows = js_ceil_div (imageHeight - overlapPx options) stride
            in tiles_loop
                 (\<lambda>(row, col). encode_tile lib outputDir options imageWidth imageHeight stride cols rows row col)
                 (grid_cells rows cols))"

section \<open>generateCropRegions and generateCrops\<close>

text \<open>The regions are pushed in this order. (\<open>isPortrait\<close> and \<open>isSquare\<close> are computed by the
  source and never used.)\<close>

definition generateCropRegions :: "int \<Rightarrow> int \<Rightarrow> int \<Rightarrow> crop_region list" where
  "generateCropRegions width height minSize =
     (if width < minSize \<or> height < minSize then []
      else
        let isLandscape = width > height;
            half = rat_of_int minSize * (1 / 2);
            headerHeight = min (js_round (of_int height * (2 / 10))) minSize;
            header = (if of_int headerHeight \<ge> half
                      then [\<lparr>cr_name = ''header'', cr_x = 0, cr_y = 0, cr_w = width, cr_h = headerHeight\<rparr>]
                      else []);
            topLeftSize = min minSize (js_round (of_int width * (4 / 10)));
            top_left = (if of_int topLeftSize \<ge> half
                        then [\<lparr>cr_name = ''top_left'', cr_x = 0, cr_y = 0, cr_w = topLeftSize, cr_h = topLeftSize\<rparr>]
                        else []);
            topRightSize = min minSize (js_round (of_int width * (4 / 10)));
            top_right = (if of_int topRightSize \<ge> half
                         then [\<lparr>cr_name = ''top_right'', cr_x = width - topRightSize, cr_y = 0,
                                cr_w = topRightSize, cr_h = topRightSize\<rparr>]
                         else []);
            centerSize = min minSize (js_round (of_int (min width height) * (6 / 10)));
            centerX = js_round (of_int (width - centerSize) / 2);
            centerY = js_round (of_int (height - centerSize) / 2);
            center = (if of_int centerSize \<ge> half
                      then [\<lparr>cr_name = ''center'', cr_x = centerX, cr_y = centerY,
                             cr_w = centerSize, cr_h = centerSize\<rparr>]
                      else []);
            footerHeight = min (js_round (of_int height * (25 / 100))) minSize;
            footerY = height - footerHeight;
            footer = (if of_int footerHeight \<ge> half
                      then [\<lparr>cr_name = ''footer'', cr_x = 0, cr_y = footerY, cr_w = width, cr_h = footerHeight\<rparr>]
                      else []);
            bottomRightSize = min minSize (js_round (of_int width * (3 / 10)));
            bottom_right = (if of_int bottomRightSize \<ge> half \<and> isLandscape
                            then [\<lparr>cr_name = ''bottom_right'', cr_x = width - bottomRightSize,
                                   cr_y = height - bottomRightSize,
                                   cr_w = bottomRightSize, cr_h = bottomRightSize\<rparr>]
                            else []);
            left_edge = (if isLandscape \<and> of_int width \<ge> rat_of_int minSize * (15 / 10)
                         then let sideWidth = min minSize (js_round (of_int width * (3 / 10)))
                              in [\<lparr>cr_name = ''left_edge'', cr_x = 0, cr_y = 0, cr_w = sideWidth, cr_h = height\<rparr>]
                         else []);
            right_edge = (if isLandscape \<and> of_int width \<ge> rat_of_int minSize * (15 / 10)
                          then let sideWidth = min minSize (js_round (of_int width * (3 / 10)))
                               in [\<lparr>cr_name = ''right_edge'', cr_x = width - sideWidth, cr_y = 0,
                                    cr_w = sideWidth, cr_h = height\<rparr>]
                          else [])
        in header @ top_left @ top_right @ center @ footer @ bottom_right @ left_edge @ right_edge)"

definition cropFileName :: "nat \<Rightarrow> string \<Rightarrow> format \<Rightarrow> string" where
  "cropFileName cropIndex name fmt =
     ''crop_'' @ show_nat cropIndex @ ''_'' @ sanitizeName name @ ''.'' @ extension fmt"

definition region_of_crop :: "crop_region \<Rightarrow> region" where
  "region_of_crop r = \<lparr>reg_left = cr_x r, reg_top = cr_y r, reg_width = cr_w r, reg_height = cr_h r\<rparr>"

definition make_crop :: "crop_region \<Rightarrow> encoded_image \<Rightarrow> crop" where
  "make_crop r encoded =
     \<lparr>crop_path = img_path encoded, crop_name = cr_name r, crop_x = cr_x r, crop_y = cr_y r,
      crop_w = cr_w r, crop_h = cr_h r, crop_bytes = img_bytes encoded,
      crop_width = img_width encoded, crop_height = img_height encoded\<rparr>"

definition encode_crop :: "sharp \<Rightarrow> string \<Rightarrow> crop_options \<Rightarrow> nat \<Rightarrow> crop_region \<Rightarrow> error + encoded_image" where
  "encode_crop lib outputDir options cropIndex r =
     encodeToFit lib (join outputDir (cropFileName cropIndex (cr_name r) (c_preferFormat options)))
       \<lparr>maxBytes = c_maxBytes options, maxLongEdge = c_maxLongEdge options,
        preferFormat = c_preferFormat options\<rparr>
       (Some (region_of_crop r))"

text \<open>The loop over the regions (lines 75 to 105), started with \<open>cropIndex\<close>: the crops
  pushed and the warnings written by \<open>console.warn\<close> (region name and error), each in order.
  \<open>cropIndex\<close> grows only after a successful \<open>push\<close>.\<close>

fun crops_loop ::
  "sharp \<Rightarrow> string \<Rightarrow> crop_options \<Rightarrow> nat \<Rightarrow> crop_region list \<Rightarrow> crop list \<times> (string \<times> error) list" where
  "crops_loop lib outputDir options cropIndex [] = ([], [])"
| "crops_loop lib outputDir options cropIndex (r # rs) =
     (case encode_crop lib outputDir options cropIndex r of
        Inl e \<Rightarrow>
          (case crops_loop lib outputDir options cropIndex rs of
             (cs, ws) \<Rightarrow> (cs, (cr_name r, e) # ws))
      | Inr encoded \<Rightarrow>
          (case crops_loop lib outputDir options (cropIndex + 1) rs of
             (cs, ws) \<Rightarrow> (make_crop r encoded # cs, ws)))"

definition generateCrops ::
  "sharp \<Rightarrow> string \<Rightarrow> crop_options \<Rightarrow> error + crop list \<times> (string \<times> error) list" where
  "generateCrops lib outputDir options =
     (case sharp_metadata lib None of
        None \<Rightarrow> Inl SharpError
      | Some (imageWidth, imageHeight) \<Rightarrow>
          if imageWidth = 0 \<or> imageHeight = 0 then Inl InvalidDimensions
          else Inr (crops_loop lib outputDir options 0
                      (generateCropRegions imageWidth imageHeight (minCropSize options))))"

section \<open>Vocabulary of the statements\<close>

text \<open>An attempt succeeded when it did not throw. \<open>last_success\<close> is the result of the last
  successful attempt of a log, if there is one.\<close>

definition succeeded :: "attempt \<Rightarrow> bool" where
  "succeeded a = (att_result a \<noteq> None)"

definition last_success :: "attempt list \<Rightarrow> encoded_image option" where
  "last_success hist =
     (if filter succeeded hist = [] then None else att_result (last (filter succeeded hist)))"

text \<open>No attempt of the log met the byte budget.\<close>

definition all_over :: "int \<Rightarrow> attempt list \<Rightarrow> bool" where
  "all_over mb hist = (\<forall>a \<in> set hist. \<not> within_budget mb (att_result a))"

text \<open>The artifact of an attempt carries the scale factor of the attempt.\<close>

definition consistent :: "attempt \<Rightarrow> bool" where
  "consistent a = (\<forall>r. att_result a = Some r \<longrightarrow> img_scaleFactor r = att_scale a)"

definition scale_tagging :: "(rat \<Rightarrow> int \<Rightarrow> encoded_image option) \<Rightarrow> bool" where
  "scale_tagging run = (\<forall>s q r. run s q = Some r \<longrightarrow> img_scaleFactor r = s)"

text \<open>The byte sizes of the successful attempts of a log, in order.\<close>

definition attempt_bytes :: "attempt list \<Rightarrow> int list" where
  "attempt_bytes hist = map (\<lambda>a. img_bytes (the (att_result a))) (filter succeeded hist)"

definition tile_rect :: "tile \<Rightarrow> int \<times> int \<times> int \<times> int" where
  "tile_rect t = (tile_x t, tile_y t, tile_w t, tile_h t)"

section \<open>Concrete image libraries for the examples\<close>

text \<open>The pixel size of the output of a pipeline on an image of \<open>W\<close> by \<open>H\<close> pixels: the size
  it is resized to, else the size of the extracted region, else the size of the image.\<close>

definition output_size :: "int \<Rightarrow> int \<Rightarrow> pipeline \<Rightarrow> int \<times> int" where
  "output_size W H p =
     (case pl_resize p of
        Some wh \<Rightarrow> wh
      | None \<Rightarrow> (case pl_extract p of None \<Rightarrow> (W, H) | Some r \<Rightarrow> (reg_width r, reg_height r)))"

definition write_file :: "int \<Rightarrow> int \<Rightarrow> (pipeline \<Rightarrow> int option) \<Rightarrow> pipeline \<Rightarrow> written_file option" where
  "write_file W H bytes_of p =
     (case bytes_of p of
        None \<Rightarrow> None
      | Some b \<Rightarrow>
          (case output_size W H p of
             (w, h) \<Rightarrow> Some \<lparr>file_width = w, file_height = h, file_size = b\<rparr>))"

text \<open>An image of \<open>W\<close> by \<open>H\<close> pixels and a library whose metadata describes the output of
  a pipeline: after an extraction the size of the region, for an encode pipeline the size
  of the file it is about to write. A pipeline writes \<open>bytes_of p\<close> bytes, or throws where
  \<open>bytes_of p\<close> is \<open>None\<close>.\<close>

definition demo_sharp :: "int \<Rightarrow> int \<Rightarrow> (pipeline \<Rightarrow> int option) \<Rightarrow> sharp" where
  "demo_sharp W H bytes_of =
     \<lparr>sharp_metadata =
        (\<lambda>reg. case reg of None \<Rightarrow> Some (W, H) | Some r \<Rightarrow> Some (reg_width r, reg_height r)),
      sharp_info = (\<lambda>p. Some (output_size W H p)),
      sharp_toFile = (\<lambda>path p. write_file W H bytes_of p)\<rparr>"

text \<open>The same image and a library whose metadata describes the input image, whatever
  operations the pipeline holds (as the documentation of \<open>sharp\<close> says of \<open>metadata()\<close>); the
  files written are the same.\<close>

definition sharp_like :: "int \<Rightarrow> int \<Rightarrow> (pipeline \<Rightarrow> int option) \<Rightarrow> sharp" where
  "sharp_like W H bytes_of =
     \<lparr>sharp_metadata = (\<lambda>reg. Some (W, H)),
      sharp_info = (\<lambda>p. Some (W, H)),
      sharp_toFile = (\<lambda>path p. write_file W H bytes_of p)\<rparr>"

text \<open>A full-size output takes 2000 bytes, a resized one 500 bytes.\<close>

definition size_resized :: "pipeline \<Rightarrow> int option" where
  "size_resized p = Some (case pl_resize p of None \<Rightarrow> 2000 | Some wh \<Rightarrow> 500)"

definition scale_budget :: encode_options where
  "scale_budget = \<lparr>maxBytes = 1000, maxLongEdge = 4096, preferFormat = Webp\<rparr>"

text \<open>Every pipeline writes 1000 bytes.\<close>

definition size_small :: "pipeline \<Rightarrow> int option" where
  "size_small p = Some 1000"

text \<open>An encoder whose output is a little larger at quality 20 than at quality 25.\<close>

definition size_bump :: "pipeline \<Rightarrow> int option" where
  "size_bump p = Some (if pl_quality p = 20 then 500 else 300 + pl_quality p)"

text \<open>Every pipeline throws.\<close>

definition size_throws :: "pipeline \<Rightarrow> int option" where
  "size_throws p = None"

definition default_tiling :: tiling_options where
  "default_tiling =
     \<lparr>tilePx = 1536, overlapPx = 96, t_maxBytes = 4000000, t_maxLongEdge = 4096,
      t_preferFormat = Webp\<rparr>"

definition tight_budget :: encode_options where
  "tight_budget = \<lparr>maxBytes = 100, maxLongEdge = 4096, preferFormat = Webp\<rparr>"

definition half_budget :: encode_options where
  "half_budget = \<lparr>maxBytes = 100, maxLongEdge = 50, preferFormat = Jpeg\<rparr>"

definition default_crops :: crop_options where
  "default_crops =
     \<lparr>c_maxBytes = 4000000, c_maxLongEdge = 4096, c_preferFormat = Webp, minCropSize = 768\<rparr>"

text \<open>An encoder that throws on every pipeline whose extracted region starts at \<open>x = 1440\<close>
  or at \<open>x = 1536\<close>, and writes 1000 bytes otherwise.\<close>

definition size_fail_middle :: "pipeline \<Rightarrow> int option" where
  "size_fail_middle p =
     (case pl_extract p of
        None \<Rightarrow> Some 1000
      | Some r \<Rightarrow> if reg_left r = 1440 \<or> reg_left r = 1536 then None else Some 1000)"

section \<open>The heuristic region table, declaratively\<close>

text \<open>
  The table of section 4.3 of the specification, one row per region in table order. A row
  holds the region (names, geometry and rounding as in \<open>generateCropRegions\<close>), its
  computed size in the constraining dimension, and the gate of its rule.
\<close>

datatype gate =
    Always
  | Landscape        \<comment> \<open>only if the image is landscape, \<open>W > H\<close>\<close>
  | LandscapeWide    \<comment> \<open>only if landscape and \<open>W \<ge> 1.5 * minCropSize\<close>\<close>

record table_row =
  row_region :: crop_region
  row_size :: int
  row_gate :: gate

definition crop_table :: "int \<Rightarrow> int \<Rightarrow> int \<Rightarrow> table_row list" where
  "crop_table width height minSize =
     (let headerHeight = min (js_round (of_int height * (2 / 10))) minSize;
          cornerSize = min minSize (js_round (of_int width * (4 / 10)));
          centerSize = min minSize (js_round (of_int (min width height) * (6 / 10)));
          footerHeight = min (js_round (of_int height * (25 / 100))) minSize;
          sideSize = min minSize (js_round (of_int width * (3 / 10)))
      in [\<lparr>row_region = \<lparr>cr_name = ''header'', cr_x = 0, cr_y = 0, cr_w = width, cr_h = headerHeight\<rparr>,
           row_size = headerHeight, row_gate = Always\<rparr>,
          \<lparr>row_region = \<lparr>cr_name = ''top_left'', cr_x = 0, cr_y = 0, cr_w = cornerSize, cr_h = cornerSize\<rparr>,
           row_size = cornerSize, row_gate = Always\<rparr>,
          \<lparr>row_region = \<lparr>cr_name = ''top_right'', cr_x = width - cornerSize, cr_y = 0,
                          cr_w = cornerSize, cr_h = cornerSize\<rparr>,
           row_size = cornerSize, row_gate = Always\<rparr>,
          \<lparr>row_region = \<lparr>cr_name = ''center'', cr_x = js_round (of_int (width - centerSize) / 2),
                          cr_y = js_round (of_int (height - centerSize) / 2),
                          cr_w = centerSize, cr_h = centerSize\<rparr>,
           row_size = centerSize, row_gate = Always\<rparr>,
          \<lparr>row_region = \<lparr>cr_name = ''footer'', cr_x = 0, cr_y = height - footerHeight,
                          cr_w = width, cr_h = footerHeight\<rparr>,
           row_size = footerHeight, row_gate = Always\<rparr>,
          \<lparr>row_region = \<lparr>cr_name = ''bottom_right'', cr_x = width - sideSize, cr_y = height - sideSize,
                          cr_w = sideSize, cr_h = sideSize\<rparr>,
           row_size = sideSize, row_gate = Landscape\<rparr>,
          \<lparr>row_region = \<lparr>cr_name = ''left_edge'', cr_x = 0, cr_y = 0, cr_w = sideSize, cr_h = height\<rparr>,
           row_size = sideSize, row_gate = LandscapeWide\<rparr>,
          \<lparr>row_region = \<lparr>cr_name = ''right_edge'', cr_x = width - sideSize, cr_y = 0,
                          cr_w = sideSize, cr_h = height\<rparr>,
           row_size = sideSize, row_gate = LandscapeWide\<rparr>])"

definition gate_holds :: "int \<Rightarrow> int \<Rightarrow> int \<Rightarrow> gate \<Rightarrow> bool" where
  "gate_holds width height minSize g =
     (case g of
        Always \<Rightarrow> True
      | Landscape \<Rightarrow> width > height
      | LandscapeWide \<Rightarrow> width > height \<and> rat_of_int width \<ge> rat_of_int minSize * (15 / 10))"

definition size_ok :: "int \<Rightarrow> table_row \<Rightarrow> bool" where
  "size_ok minSize row = (rat_of_int (row_size row) \<ge> rat_of_int minSize * (1 / 2))"

text \<open>The inclusion rule in the words of claim C7: every region needs its size to be at
  least \<open>minCropSize * 0.5\<close>, and its gate.\<close>

definition included_as_claimed :: "int \<Rightarrow> int \<Rightarrow> int \<Rightarrow> table_row \<Rightarrow> bool" where
  "included_as_claimed width height minSize row =
     (size_ok minSize row \<and> gate_holds width height minSize (row_gate row))"

definition crop_regions_as_claimed :: "int \<Rightarrow> int \<Rightarrow> int \<Rightarrow> crop_region list" where
  "crop_regions_as_claimed width height minSize =
     map row_region (filter (included_as_claimed width height minSize) (crop_table width height minSize))"

text \<open>The inclusion rule the code applies: the two edge strips are gated by the landscape
  test and the width test only, every other region by its size (and its gate).\<close>

definition included :: "int \<Rightarrow> int \<Rightarrow> int \<Rightarrow> table_row \<Rightarrow> bool" where
  "included width height minSize row =
     (if row_gate row = LandscapeWide then gate_holds width height minSize LandscapeWide
      else size_ok minSize row \<and> gate_holds width height minSize (row_gate row))"

section \<open>The encoder calls of the tiler, by grid cell\<close>

text \<open>The grid of \<open>generateTiles\<close> for an image of \<open>W\<close> by \<open>H\<close> pixels, and the call of
  \<open>encodeToFit\<close> it makes for cell \<open>(row, col)\<close>.\<close>

definition tile_grid :: "tiling_options \<Rightarrow> int \<Rightarrow> int \<Rightarrow> (int \<times> int) list" where
  "tile_grid options W H =
     grid_cells (js_ceil_div (H - overlapPx options) (tilePx options - overlapPx options))
                (js_ceil_div (W - overlapPx options) (tilePx options - overlapPx options))"

definition tile_encodeToFit ::
  "sharp \<Rightarrow> string \<Rightarrow> tiling_options \<Rightarrow> int \<Rightarrow> int \<Rightarrow> int \<times> int \<Rightarrow> error + encoded_image" where
  "tile_encodeToFit lib outputDir options W H cell =
     encodeToFit lib (join outputDir (tileFileName (fst cell) (snd cell) (t_preferFormat options)))
       \<lparr>maxBytes = t_maxBytes options,
        maxLongEdge = min (t_maxLongEdge options) (tilePx options),
        preferFormat = t_preferFormat options\<rparr>
       (Some (tile_region W H (tilePx options) (tilePx options - overlapPx options)
                (js_ceil_div (W - overlapPx options) (tilePx options - overlapPx options))
                (js_ceil_div (H - overlapPx options) (tilePx options - overlapPx options))
                (fst cell) (snd cell)))"

text \<open>A region whose encoding fails, taken at crop index 0.\<close>

definition crop_fails :: "sharp \<Rightarrow> string \<Rightarrow> crop_options \<Rightarrow> crop_region \<Rightarrow> bool" where
  "crop_fails lib outputDir options r = isl (encode_crop lib outputDir options 0 r)"

text \<open>Whether the encoding of a region fails does not depend on the index in its file name.\<close>

definition index_independent :: "sharp \<Rightarrow> string \<Rightarrow> crop_options \<Rightarrow> crop_region list \<Rightarrow> bool" where
  "index_independent lib outputDir options rs =
     (\<forall>r \<in> set rs. \<forall>i. isl (encode_crop lib outputDir options i r) = crop_fails lib outputDir options r)"

text \<open>The named region a crop was cut from.\<close>

definition region_of :: "crop \<Rightarrow> crop_region" where
  "region_of c =
     \<lparr>cr_name = crop_name c, cr_x = crop_x c, cr_y = crop_y c, cr_w = crop_w c, cr_h = crop_h c\<rparr>"

text \<open>A library whose pipelines do not depend on the output path, and an artifact without
  its path.\<close>

definition path_independent :: "sharp \<Rightarrow> bool" where
  "path_independent lib = (\<forall>p p' pl. sharp_toFile lib p pl = sharp_toFile lib p' pl)"

definition strip_path :: "encoded_image \<Rightarrow> encoded_image" where
  "strip_path r = r\<lparr>img_path := []\<rparr>"

section \<open>The search of encodeToFit\<close>

lemma last_success_Nil: "last_success [] = None"
  by (simp add: last_success_def)

lemma last_success_snoc:
  "last_success (hist @ [a]) = (case att_result a of None \<Rightarrow> last_success hist | Some r \<Rightarrow> Some r)"
  by (cases "att_result a") (auto simp: last_success_def succeeded_def)

lemma last_success_None: "last_success hist = None \<longleftrightarrow> (\<forall>a \<in> set hist. att_result a = None)"
proof (induction hist rule: rev_induct)
  case Nil
  show ?case by (simp add: last_success_Nil)
next
  case (snoc a hist)
  then show ?case by (cases "att_result a") (auto simp: last_success_snoc)
qed

lemma quality_loop_best:
  "bestResult st = last_success (attempts st) \<Longrightarrow>
   bestResult (quality_loop run mb sf qs st) = last_success (attempts (quality_loop run mb sf qs st))"
proof (induction qs arbitrary: st)
  case Nil
  then show ?case by simp
next
  case (Cons q qs)
  show ?case
  proof (cases "run sf q")
    case None
    with Cons.prems show ?thesis by (simp add: record_attempt_def last_success_snoc)
  next
    case (Some result)
    let ?st = "(record_attempt sf q (Some result) st)\<lparr>bestResult := Some result\<rparr>"
    have inv: "bestResult ?st = last_success (attempts ?st)"
      by (simp add: record_attempt_def last_success_snoc)
    show ?thesis
    proof (cases "img_bytes result \<le> mb")
      case True
      with Some inv show ?thesis by simp
    next
      case False
      with Some Cons.IH [OF inv] show ?thesis by simp
    qed
  qed
qed

lemma scale_loop_best:
  "bestResult st = last_success (attempts st) \<Longrightarrow>
   bestResult (scale_loop run mb sf ns st) = last_success (attempts (scale_loop run mb sf ns st))"
proof (induction ns arbitrary: st sf)
  case Nil
  then show ?case by simp
next
  case (Cons n ns)
  let ?st = "quality_loop run mb (min sf n) qualityLevels st"
  have inv: "bestResult ?st = last_success (attempts ?st)"
    by (rule quality_loop_best [OF Cons.prems])
  show ?case
    using inv Cons.IH [OF inv] by (simp add: Let_def)
qed

lemma encode_search_best:
  "bestResult (encode_search lib p opts reg ow oh) = last_success (attempts (encode_search lib p opts reg ow oh))"
  unfolding encode_search_def Let_def
  by (simp add: quality_loop_best scale_loop_best last_success_Nil)


lemma all_over_snoc:
  "all_over mb (hist @ [a]) \<longleftrightarrow> all_over mb hist \<and> \<not> within_budget mb (att_result a)"
  by (auto simp: all_over_def)

lemma all_over_butlast: "all_over mb hist \<Longrightarrow> all_over mb (butlast hist)"
  by (auto simp: all_over_def dest: in_set_butlastD)

lemma quality_loop_over_all:
  "all_over mb (attempts st) \<Longrightarrow> \<not> within_budget mb (bestResult (quality_loop run mb sf qs st)) \<Longrightarrow>
   all_over mb (attempts (quality_loop run mb sf qs st))"
proof (induction qs arbitrary: st)
  case Nil
  then show ?case by simp
next
  case (Cons q qs)
  show ?case
  proof (cases "run sf q")
    case None
    with Cons.prems show ?thesis
      by (simp add: record_attempt_def all_over_snoc within_budget_def)
  next
    case (Some result)
    show ?thesis
    proof (cases "img_bytes result \<le> mb")
      case True
      with Some Cons.prems show ?thesis by (simp add: within_budget_def)
    next
      case False
      let ?st = "(record_attempt sf q (Some result) st)\<lparr>bestResult := Some result\<rparr>"
      have "all_over mb (attempts ?st)"
        using Cons.prems(1) False by (simp add: record_attempt_def all_over_snoc within_budget_def)
      moreover have "\<not> within_budget mb (bestResult (quality_loop run mb sf qs ?st))"
        using Cons.prems(2) Some False by simp
      ultimately have "all_over mb (attempts (quality_loop run mb sf qs ?st))"
        by (rule Cons.IH)
      with Some False show ?thesis by simp
    qed
  qed
qed

lemma quality_loop_over_butlast:
  "all_over mb (attempts st) \<Longrightarrow> all_over mb (butlast (attempts (quality_loop run mb sf qs st)))"
proof (induction qs arbitrary: st)
  case Nil
  then show ?case by (simp add: all_over_butlast)
next
  case (Cons q qs)
  show ?case
  proof (cases "run sf q")
    case None
    with Cons.prems show ?thesis
      by (simp add: record_attempt_def butlast_append)
  next
    case (Some result)
    show ?thesis
    proof (cases "img_bytes result \<le> mb")
      case True
      with Some Cons.prems show ?thesis by (simp add: record_attempt_def butlast_append)
    next
      case False
      let ?st = "(record_attempt sf q (Some result) st)\<lparr>bestResult := Some result\<rparr>"
      have "all_over mb (attempts ?st)"
        using Cons.prems(1) False by (simp add: record_attempt_def all_over_snoc within_budget_def)
      then have "all_over mb (butlast (attempts (quality_loop run mb sf qs ?st)))"
        by (rule Cons.IH)
      with Some False show ?thesis by simp
    qed
  qed
qed

lemma scale_loop_over_butlast:
  "all_over mb (attempts st) \<Longrightarrow> all_over mb (butlast (attempts (scale_loop run mb sf ns st)))"
proof (induction ns arbitrary: st sf)
  case Nil
  then show ?case by (simp add: all_over_butlast)
next
  case (Cons n ns)
  let ?st = "quality_loop run mb (min sf n) qualityLevels st"
  show ?case
  proof (cases "within_budget mb (bestResult ?st)")
    case True
    with quality_loop_over_butlast [OF Cons.prems] show ?thesis by (simp add: Let_def)
  next
    case False
    have "all_over mb (attempts ?st)"
      by (rule quality_loop_over_all [OF Cons.prems False])
    then have "all_over mb (butlast (attempts (scale_loop run mb (min sf n) ns ?st)))"
      by (rule Cons.IH)
    with False show ?thesis by (simp add: Let_def)
  qed
qed

lemma encode_search_over_butlast:
  "all_over (maxBytes opts) (butlast (attempts (encode_search lib p opts reg ow oh)))"
proof -
  have init: "all_over (maxBytes opts) (attempts \<lparr>bestResult = None, attempts = []\<rparr>)"
    by (simp add: all_over_def)
  show ?thesis
    unfolding encode_search_def Let_def
    using quality_loop_over_butlast [OF init]
          scale_loop_over_butlast [OF quality_loop_over_all [OF init]]
    by simp
qed

lemma sorted_wrt_const:
  "\<forall>a \<in> set xs. f a = (c::rat) \<Longrightarrow> sorted_wrt (\<ge>) (map f xs)"
  by (induction xs) auto

lemma quality_loop_scales:
  assumes "scale_tagging run"
  shows "\<exists>new. attempts (quality_loop run mb sf qs st) = attempts st @ new \<and>
           (\<forall>a \<in> set new. att_scale a = sf \<and> consistent a) \<and> (qs \<noteq> [] \<longrightarrow> new \<noteq> [])"
proof (induction qs arbitrary: st)
  case Nil
  show ?case by simp
next
  case (Cons q qs)
  show ?case
  proof (cases "run sf q")
    case None
    then show ?thesis by (simp add: record_attempt_def consistent_def)
  next
    case (Some result)
    from assms Some have tag: "img_scaleFactor result = sf" by (auto simp: scale_tagging_def)
    let ?a = "\<lparr>att_scale = sf, att_quality = q, att_result = Some result\<rparr>"
    let ?st = "(record_attempt sf q (Some result) st)\<lparr>bestResult := Some result\<rparr>"
    show ?thesis
    proof (cases "img_bytes result \<le> mb")
      case True
      with Some tag show ?thesis by (simp add: record_attempt_def consistent_def)
    next
      case False
      from Cons.IH [of ?st] obtain new where
        new: "attempts (quality_loop run mb sf qs ?st) = attempts ?st @ new"
             "\<forall>a \<in> set new. att_scale a = sf \<and> consistent a" by blast
      have "attempts (quality_loop run mb sf (q # qs) st) = attempts st @ (?a # new)"
        using Some False new(1) by (simp add: record_attempt_def)
      moreover have "\<forall>a \<in> set (?a # new). att_scale a = sf \<and> consistent a"
        using new(2) tag by (simp add: consistent_def)
      ultimately show ?thesis by blast
    qed
  qed
qed

lemma scale_loop_scales:
  assumes "scale_tagging run"
  shows "\<exists>new. attempts (scale_loop run mb sf ns st) = attempts st @ new \<and>
           sorted_wrt (\<ge>) (map att_scale new) \<and>
           (\<forall>a \<in> set new. att_scale a \<le> sf \<and> consistent a)"
proof (induction ns arbitrary: st sf)
  case Nil
  show ?case by simp
next
  case (Cons n ns)
  let ?sf = "min sf n"
  let ?st = "quality_loop run mb ?sf qualityLevels st"
  from quality_loop_scales [OF assms, of mb ?sf qualityLevels st] obtain new1 where
    new1: "attempts ?st = attempts st @ new1" "\<forall>a \<in> set new1. att_scale a = ?sf \<and> consistent a"
    by blast
  have const: "sorted_wrt (\<ge>) (map att_scale new1)"
    using new1(2) by (intro sorted_wrt_const [where c = "?sf"]) simp
  show ?case
  proof (cases "within_budget mb (bestResult ?st)")
    case True
    then have "attempts (scale_loop run mb sf (n # ns) st) = attempts st @ new1"
      using new1(1) by (simp add: Let_def)
    moreover have "\<forall>a \<in> set new1. att_scale a \<le> sf \<and> consistent a"
      using new1(2) by auto
    ultimately show ?thesis using const by blast
  next
    case False
    from Cons.IH [of ?sf ?st] obtain new2 where
      new2: "attempts (scale_loop run mb ?sf ns ?st) = attempts ?st @ new2"
            "sorted_wrt (\<ge>) (map att_scale new2)"
            "\<forall>a \<in> set new2. att_scale a \<le> ?sf \<and> consistent a" by blast
    have "attempts (scale_loop run mb sf (n # ns) st) = attempts st @ (new1 @ new2)"
      using False new1(1) new2(1) by (simp add: Let_def)
    moreover have "sorted_wrt (\<ge>) (map att_scale (new1 @ new2))"
      using const new2(2) new1(2) new2(3) by (auto simp: sorted_wrt_append)
    moreover have "\<forall>a \<in> set (new1 @ new2). att_scale a \<le> sf \<and> consistent a"
      using new1(2) new2(3) by auto
    ultimately show ?thesis by blast
  qed
qed

lemma last_success_Some_mem:
  "last_success hist = Some r \<Longrightarrow> \<exists>a \<in> set hist. att_result a = Some r"
proof -
  assume a: "last_success hist = Some r"
  then have ne: "filter succeeded hist \<noteq> []" by (auto simp: last_success_def split: if_splits)
  then have "last (filter succeeded hist) \<in> set (filter succeeded hist)" by (rule last_in_set)
  moreover from a ne have "att_result (last (filter succeeded hist)) = Some r"
    by (simp add: last_success_def)
  ultimately show ?thesis by auto
qed

lemma last_success_within_is_last:
  assumes "last_success hist = Some r" "within_budget mb (Some r)" "all_over mb (butlast hist)"
  shows "hist \<noteq> [] \<and> att_result (last hist) = Some r"
proof -
  from assms(1) have ne: "filter succeeded hist \<noteq> []"
    by (auto simp: last_success_def split: if_splits)
  let ?a = "last (filter succeeded hist)"
  from ne have mem: "?a \<in> set (filter succeeded hist)" by (rule last_in_set)
  from assms(1) ne have res: "att_result ?a = Some r" by (simp add: last_success_def)
  from mem have inh: "?a \<in> set hist" by simp
  then have hne: "hist \<noteq> []" by auto
  have "?a \<notin> set (butlast hist)"
    using assms(2,3) res by (auto simp: all_over_def)
  moreover from hne have "set hist = insert (last hist) (set (butlast hist))"
    by (metis append_butlast_last_id list.simps(15) rotate1.simps(2) set_rotate1)
  ultimately have "?a = last hist" using inh by auto
  with res hne show ?thesis by simp
qed

text \<open>
  Claim C5. \<open>encodeToFit\<close> raises an error if and only if every encode attempt of the
  search threw (none was made when the metadata call itself rejected). Whenever an attempt
  produced a file, the call returns the artifact of one of its attempts, also when that
  artifact is larger than \<open>maxBytes\<close>: the byte budget alone never causes an error.
\<close>

theorem encodeToFit_raises_iff_all_threw:
  "((\<exists>e. encodeToFit lib outputPath options reg = Inl e) \<longleftrightarrow>
      (\<forall>a \<in> set (encodeToFit_attempts lib outputPath options reg). att_result a = None)) \<and>
   (\<forall>r. encodeToFit lib outputPath options reg = Inr r \<longrightarrow>
      (\<exists>a \<in> set (encodeToFit_attempts lib outputPath options reg). att_result a = Some r))"
proof (cases "sharp_metadata lib reg")
  case None
  then show ?thesis by (simp add: encodeToFit_def encodeToFit_attempts_def)
next
  case (Some wh)
  obtain ow oh where wh: "wh = (ow, oh)" by (cases wh)
  let ?s = "encode_search lib outputPath options reg ow oh"
  have best: "bestResult ?s = last_success (attempts ?s)" by (rule encode_search_best)
  show ?thesis
  proof (cases "bestResult ?s")
    case None
    with best have "last_success (attempts ?s) = None" by simp
    then have "\<forall>a \<in> set (attempts ?s). att_result a = None"
      by (simp only: last_success_None)
    with None Some wh show ?thesis by (simp add: encodeToFit_def encodeToFit_attempts_def)
  next
    case (Some r)
    with best have "last_success (attempts ?s) = Some r" by simp
    then have "\<exists>a \<in> set (attempts ?s). att_result a = Some r"
      by (rule last_success_Some_mem)
    with Some \<open>sharp_metadata lib reg = Some wh\<close> wh show ?thesis
      by (auto simp: encodeToFit_def encodeToFit_attempts_def)
  qed
qed

text \<open>With the encoder \<open>size_bump\<close> and a budget of 100 bytes no attempt meets the budget;
  the call returns an artifact of 500 bytes.\<close>

lemma eval_bump_bytes:
  "map_sum id img_bytes (encodeToFit (demo_sharp 100 100 size_bump) ''out/a.webp'' tight_budget None) = Inr 500"
  by code_simp

text \<open>With an encoder that always throws, the call raises.\<close>

lemma eval_throws:
  "encodeToFit (demo_sharp 100 100 size_throws) ''out/a.webp'' tight_budget None = Inl (EncodeFailed 100)"
  by code_simp

theorem encodeToFit_raises_iff_all_threw_witness:
  "\<not> (\<exists>e. encodeToFit (demo_sharp 100 100 size_bump) ''out/a.webp'' tight_budget None = Inl e) \<and>
   encodeToFit (demo_sharp 100 100 size_throws) ''out/a.webp'' tight_budget None = Inl (EncodeFailed 100) \<and>
   (\<exists>a \<in> set (encodeToFit_attempts (demo_sharp 100 100 size_bump) ''out/a.webp'' tight_budget None).
      att_result a \<noteq> None) \<and>
   map_sum id img_bytes (encodeToFit (demo_sharp 100 100 size_bump) ''out/a.webp'' tight_budget None) = Inr 500 \<and>
   maxBytes tight_budget = 100"
proof -
  let ?r = "encodeToFit (demo_sharp 100 100 size_bump) ''out/a.webp'' tight_budget None"
  have no: "\<not> (\<exists>e. ?r = Inl e)" using eval_bump_bytes by auto
  with encodeToFit_raises_iff_all_threw [of "demo_sharp 100 100 size_bump" "''out/a.webp''" tight_budget None]
  have "\<exists>a \<in> set (encodeToFit_attempts (demo_sharp 100 100 size_bump) ''out/a.webp'' tight_budget None).
      att_result a \<noteq> None" by blast
  with no eval_bump_bytes eval_throws show ?thesis by (simp add: tight_budget_def)
qed

text \<open>
  Claim C2 as stated fails: every successful attempt overwrites \<open>bestResult\<close>, whatever
  the sizes. With \<open>size_bump\<close> no attempt meets the budget of 100 bytes, the smallest
  artifact of the call has 325 bytes (quality 25) and the call returns the last one, of
  500 bytes.
\<close>

theorem encodeToFit_keeps_smallest_counterexample:
  "map_sum id img_bytes (encodeToFit (demo_sharp 100 100 size_bump) ''out/a.webp'' tight_budget None) = Inr 500 \<and>
   min_list (attempt_bytes (encodeToFit_attempts (demo_sharp 100 100 size_bump) ''out/a.webp'' tight_budget None)) = 325 \<and>
   maxBytes tight_budget = 100"
  by code_simp

text \<open>
  Claim C2, amended. The artifact returned by \<open>encodeToFit\<close> is the result of the last
  attempt of the call that did not throw: each successful attempt replaces the recorded
  one. No attempt before the last one of the call meets \<open>maxBytes\<close>, so the search stops
  at the first attempt that does, and an artifact within the budget is the result of the
  very last attempt. When no attempt meets the budget, the last successful one is
  returned, whose size need not be the least.
\<close>

theorem encodeToFit_returns_last_success:
  "(\<forall>r. encodeToFit lib outputPath options reg = Inr r \<longleftrightarrow>
       last_success (encodeToFit_attempts lib outputPath options reg) = Some r) \<and>
   all_over (maxBytes options) (butlast (encodeToFit_attempts lib outputPath options reg)) \<and>
   (\<forall>r. encodeToFit lib outputPath options reg = Inr r \<and> img_bytes r \<le> maxBytes options \<longrightarrow>
       att_result (last (encodeToFit_attempts lib outputPath options reg)) = Some r)"
proof (cases "sharp_metadata lib reg")
  case None
  then show ?thesis
    by (simp add: encodeToFit_def encodeToFit_attempts_def last_success_Nil all_over_def)
next
  case (Some wh)
  obtain ow oh where wh: "wh = (ow, oh)" by (cases wh)
  let ?s = "encode_search lib outputPath options reg ow oh"
  have hist: "encodeToFit_attempts lib outputPath options reg = attempts ?s"
    using Some wh by (simp add: encodeToFit_attempts_def)
  have best: "bestResult ?s = last_success (attempts ?s)" by (rule encode_search_best)
  have over: "all_over (maxBytes options) (butlast (attempts ?s))"
    by (rule encode_search_over_butlast)
  have res: "\<And>r. encodeToFit lib outputPath options reg = Inr r \<longleftrightarrow> last_success (attempts ?s) = Some r"
    using Some wh best by (auto simp: encodeToFit_def split: option.splits)
  have "\<And>r. encodeToFit lib outputPath options reg = Inr r \<Longrightarrow> img_bytes r \<le> maxBytes options \<Longrightarrow>
       att_result (last (attempts ?s)) = Some r"
    using last_success_within_is_last [OF _ _ over] res by (simp add: within_budget_def)
  with res over hist show ?thesis by simp
qed

theorem encodeToFit_returns_last_success_witness:
  "map_option img_bytes
     (last_success (encodeToFit_attempts (demo_sharp 100 100 size_bump) ''out/a.webp'' tight_budget None)) = Some 500"
proof -
  let ?r = "encodeToFit (demo_sharp 100 100 size_bump) ''out/a.webp'' tight_budget None"
  from eval_bump_bytes obtain r where r: "?r = Inr r" "img_bytes r = 500"
    by (cases ?r) auto
  with encodeToFit_returns_last_success [of "demo_sharp 100 100 size_bump" "''out/a.webp''" tight_budget None]
  have "last_success (encodeToFit_attempts (demo_sharp 100 100 size_bump) ''out/a.webp'' tight_budget None) = Some r"
    by blast
  with r(2) show ?thesis by simp
qed

subsection \<open>The scale factor\<close>

lemma quality_phase_attempt_tagging:
  "scale_tagging (quality_phase_attempt lib fp fmt reg ow oh)"
  by (auto simp: scale_tagging_def quality_phase_attempt_def make_result_def Let_def)

lemma scale_phase_attempt_tagging:
  "scale_tagging (scale_phase_attempt lib fp fmt reg ow oh)"
  by (auto simp: scale_tagging_def scale_phase_attempt_def make_result_def Let_def)

lemma encode_search_scales:
  "\<exists>hist1 hist2. attempts (encode_search lib p opts reg ow oh) = hist1 @ hist2 \<and> hist1 \<noteq> [] \<and>
     (\<forall>a \<in> set hist1. att_scale a = initialScale ow oh (maxLongEdge opts) \<and> consistent a) \<and>
     sorted_wrt (\<ge>) (map att_scale hist2) \<and>
     (\<forall>a \<in> set hist2. att_scale a \<le> initialScale ow oh (maxLongEdge opts) \<and> consistent a)"
proof -
  let ?sf = "initialScale ow oh (maxLongEdge opts)"
  let ?fp = "finalOutputPath p (preferFormat opts)"
  let ?init = "\<lparr>bestResult = None, attempts = []\<rparr>"
  let ?st = "quality_loop (quality_phase_attempt lib ?fp (preferFormat opts) reg ow oh)
               (maxBytes opts) ?sf qualityLevels ?init"
  from quality_loop_scales [OF quality_phase_attempt_tagging, of lib ?fp "preferFormat opts" reg ow oh
      "maxBytes opts" ?sf qualityLevels ?init]
  obtain hist1 where h1: "attempts ?st = hist1" "\<forall>a \<in> set hist1. att_scale a = ?sf \<and> consistent a"
    "hist1 \<noteq> []"
    by (auto simp: qualityLevels_def)
  show ?thesis
  proof (cases "within_budget (maxBytes opts) (bestResult ?st)")
    case True
    then have "attempts (encode_search lib p opts reg ow oh) = hist1 @ []"
      using h1(1) by (simp add: encode_search_def Let_def)
    with h1 show ?thesis by (intro exI [of _ hist1] exI [of _ "[]"]) simp
  next
    case False
    from scale_loop_scales [OF scale_phase_attempt_tagging, of lib ?fp "preferFormat opts" reg ow oh
        "maxBytes opts" ?sf scaleFactors ?st]
    obtain hist2 where h2:
      "attempts (scale_loop (scale_phase_attempt lib ?fp (preferFormat opts) reg ow oh)
                   (maxBytes opts) ?sf scaleFactors ?st) = attempts ?st @ hist2"
      "sorted_wrt (\<ge>) (map att_scale hist2)"
      "\<forall>a \<in> set hist2. att_scale a \<le> ?sf \<and> consistent a" by blast
    have "attempts (encode_search lib p opts reg ow oh) = hist1 @ hist2"
      using False h1(1) h2(1) by (simp add: encode_search_def Let_def)
    with h1 h2 show ?thesis by (intro exI [of _ hist1] exI [of _ hist2]) simp
  qed
qed

lemma initialScale_min:
  "0 < max ow oh \<Longrightarrow> initialScale ow oh mle = min 1 (of_int mle / of_int (max ow oh))"
  by (auto simp: initialScale_def Let_def min_def field_simps)

text \<open>
  Claim C6. Within one call of \<open>encodeToFit\<close> (whose metadata call succeeded) the scale
  factors of the successive attempts never increase. The first attempt uses the initial
  scale, which is \<open>min(1, maxLongEdge / max(width, height))\<close> for an image with a positive
  long edge (for a long edge of 0 the quotient is an infinity in JavaScript and 0 in HOL,
  hence the hypothesis of that conjunct). The artifact returned carries the scale factor
  of the attempt that produced it, which is at most the initial scale.
\<close>

theorem encodeToFit_scale_nonincreasing:
  assumes "sharp_metadata lib reg = Some (originalWidth, originalHeight)"
  shows "sorted_wrt (\<ge>) (map att_scale (encodeToFit_attempts lib outputPath options reg)) \<and>
         encodeToFit_attempts lib outputPath options reg \<noteq> [] \<and>
         att_scale (hd (encodeToFit_attempts lib outputPath options reg)) =
           initialScale originalWidth originalHeight (maxLongEdge options) \<and>
         (0 < max originalWidth originalHeight \<longrightarrow>
            initialScale originalWidth originalHeight (maxLongEdge options) =
              min 1 (of_int (maxLongEdge options) / of_int (max originalWidth originalHeight))) \<and>
         (\<forall>r. encodeToFit lib outputPath options reg = Inr r \<longrightarrow>
            (\<exists>a \<in> set (encodeToFit_attempts lib outputPath options reg).
               att_result a = Some r \<and> att_scale a = img_scaleFactor r) \<and>
            img_scaleFactor r \<le> initialScale originalWidth originalHeight (maxLongEdge options))"
proof -
  let ?sf = "initialScale originalWidth originalHeight (maxLongEdge options)"
  let ?s = "encode_search lib outputPath options reg originalWidth originalHeight"
  have hist: "encodeToFit_attempts lib outputPath options reg = attempts ?s"
    using assms by (simp add: encodeToFit_attempts_def)
  from encode_search_scales [of lib outputPath options reg originalWidth originalHeight]
  obtain hist1 hist2 where h: "attempts ?s = hist1 @ hist2" "hist1 \<noteq> []"
    "\<forall>a \<in> set hist1. att_scale a = ?sf \<and> consistent a"
    "sorted_wrt (\<ge>) (map att_scale hist2)"
    "\<forall>a \<in> set hist2. att_scale a \<le> ?sf \<and> consistent a" by blast
  have "sorted_wrt (\<ge>) (map att_scale hist1)"
    using h(3) by (intro sorted_wrt_const [where c = "?sf"]) simp
  then have sorted: "sorted_wrt (\<ge>) (map att_scale (attempts ?s))"
    using h by (auto simp: sorted_wrt_append)
  have ne: "attempts ?s \<noteq> []" using h(1,2) by simp
  have first: "att_scale (hd (attempts ?s)) = ?sf"
    using h(1,2,3) by (cases hist1) auto
  have all: "\<forall>a \<in> set (attempts ?s). att_scale a \<le> ?sf \<and> consistent a"
    using h(1,3,5) by auto
  have res: "\<forall>r. encodeToFit lib outputPath options reg = Inr r \<longrightarrow>
            (\<exists>a \<in> set (attempts ?s). att_result a = Some r \<and> att_scale a = img_scaleFactor r) \<and>
            img_scaleFactor r \<le> ?sf"
  proof (intro allI impI)
    fix r
    assume "encodeToFit lib outputPath options reg = Inr r"
    then have "bestResult ?s = Some r"
      using assms by (auto simp: encodeToFit_def split: option.splits)
    then have "last_success (attempts ?s) = Some r"
      using encode_search_best [of lib outputPath options reg originalWidth originalHeight] by simp
    then obtain a where a: "a \<in> set (attempts ?s)" "att_result a = Some r"
      using last_success_Some_mem by blast
    with all have "att_scale a \<le> ?sf" "img_scaleFactor r = att_scale a"
      by (auto simp: consistent_def)
    with a show "(\<exists>a \<in> set (attempts ?s). att_result a = Some r \<and> att_scale a = img_scaleFactor r) \<and>
            img_scaleFactor r \<le> ?sf" by auto
  qed
  show ?thesis
    unfolding hist using sorted ne first res initialScale_min by blast
qed

text \<open>An image of 100 by 80 pixels with \<open>maxLongEdge = 50\<close>: the search starts at scale
  1/2 and ends at scale 1/5.\<close>

lemma eval_half_scale:
  "map_sum id img_scaleFactor (encodeToFit (demo_sharp 100 80 size_bump) ''out/a'' half_budget None) = Inr (1 / 5)"
  by code_simp

lemma eval_half_meta:
  "sharp_metadata (demo_sharp 100 80 size_bump) None = Some (100, 80)"
  by (simp add: demo_sharp_def)

lemma eval_half_initial:
  "initialScale 100 80 (maxLongEdge half_budget) = 1 / 2"
  by (simp add: initialScale_def half_budget_def)

theorem encodeToFit_scale_nonincreasing_witness:
  "sharp_metadata (demo_sharp 100 80 size_bump) None = Some (100, 80) \<and>
   sorted_wrt (\<ge>) (map att_scale (encodeToFit_attempts (demo_sharp 100 80 size_bump) ''out/a'' half_budget None)) \<and>
   att_scale (hd (encodeToFit_attempts (demo_sharp 100 80 size_bump) ''out/a'' half_budget None)) = 1 / 2 \<and>
   map_sum id img_scaleFactor (encodeToFit (demo_sharp 100 80 size_bump) ''out/a'' half_budget None) = Inr (1 / 5)"
  using encodeToFit_scale_nonincreasing [OF eval_half_meta, of "''out/a''" half_budget]
        eval_half_scale eval_half_meta eval_half_initial
  by simp

subsection \<open>The dimensions an artifact reports\<close>

text \<open>
  Claim C9 fails on the code. An attempt reads \<open>width\<close> and \<open>height\<close> from the \<open>metadata()\<close>
  of the encode pipeline before \<open>toFile\<close> runs and drops what \<open>toFile\<close> returns about the
  written file; only \<open>bytes\<close> is read from the file. With a library whose \<open>metadata()\<close>
  describes the input image, an image of 100 by 80 pixels and a budget of 1000 bytes that
  only a resized output meets, the call returns the artifact of the attempt at scale 0.9
  and quality 95: it reports 100 by 80 pixels, while the file this attempt wrote has 90 by
  72 pixels (and the 500 bytes the artifact reports).
\<close>

theorem encodeToFit_reports_input_dimensions:
  "encodeToFit (sharp_like 100 80 size_resized) ''out/a.webp'' scale_budget None =
     Inr \<lparr>img_path = ''out/a.webp'', img_bytes = 500, img_width = 100, img_height = 80,
          img_format = Webp, img_quality = 95, img_scaleFactor = 9 / 10\<rparr> \<and>
   scale_phase_attempt (sharp_like 100 80 size_resized) ''out/a.webp'' Webp None 100 80 (9 / 10) 95 =
     Some \<lparr>img_path = ''out/a.webp'', img_bytes = 500, img_width = 100, img_height = 80,
           img_format = Webp, img_quality = 95, img_scaleFactor = 9 / 10\<rparr> \<and>
   sharp_toFile (sharp_like 100 80 size_resized) ''out/a.webp''
       \<lparr>pl_extract = None, pl_resize = Some (90, 72), pl_format = Webp, pl_quality = 95\<rparr> =
     Some \<lparr>file_width = 90, file_height = 72, file_size = 500\<rparr>"
  by code_simp

section \<open>The tile grid\<close>

lemma js_ceil_div_eq: "js_ceil_div a b = - ((- a) div b)"
  by (simp add: js_ceil_div_def ceiling_divide_eq_div)

lemma js_ceil_div_upper: "0 < b \<Longrightarrow> a \<le> js_ceil_div a b * b"
proof -
  assume b: "0 < b"
  have "b * ((- a) div b) + (- a) mod b = - a" by (rule mult_div_mod_eq)
  moreover have "0 \<le> (- a) mod b" using b by simp
  ultimately have "a \<le> - (b * ((- a) div b))" by linarith
  then show ?thesis by (simp add: js_ceil_div_eq mult.commute)
qed

lemma js_ceil_div_lower: "0 < b \<Longrightarrow> (js_ceil_div a b - 1) * b < a"
proof -
  assume b: "0 < b"
  have "b * ((- a) div b) + (- a) mod b = - a" by (rule mult_div_mod_eq)
  moreover have "(- a) mod b < b" using b by simp
  ultimately have "- (b * ((- a) div b)) - b < a" by linarith
  then show ?thesis by (simp add: js_ceil_div_eq algebra_simps)
qed

lemma js_ceil_div_ge_1: "0 < b \<Longrightarrow> 1 \<le> js_ceil_div a b \<longleftrightarrow> 0 < a"
proof
  assume b: "0 < b" and c: "1 \<le> js_ceil_div a b"
  then have "0 \<le> (js_ceil_div a b - 1) * b" by simp
  with js_ceil_div_lower [OF b, of a] show "0 < a" by linarith
next
  assume b: "0 < b" and a: "0 < a"
  show "1 \<le> js_ceil_div a b"
  proof (rule ccontr)
    assume "\<not> 1 \<le> js_ceil_div a b"
    then have "js_ceil_div a b \<le> 0" by simp
    with b have "js_ceil_div a b * b \<le> 0" by (simp add: mult_nonpos_nonneg)
    with js_ceil_div_upper [OF b, of a] a show False by linarith
  qed
qed

lemma pred_mult: "(c - 1) * s = c * s - (s::int)"
  by (simp add: left_diff_distrib)

lemma tile_region_x_bounds:
  assumes s: "0 < tpx - ov" and cols: "cols = js_ceil_div (W - ov) (tpx - ov)"
    and col: "0 \<le> col" "col < cols"
  shows "0 \<le> reg_left (tile_region W H tpx (tpx - ov) cols rows row col) \<and>
         reg_left (tile_region W H tpx (tpx - ov) cols rows row col) +
           reg_width (tile_region W H tpx (tpx - ov) cols rows row col) \<le> W"
proof -
  define p where "p = col * (tpx - ov)"
  let ?R = "tile_region W H tpx (tpx - ov) cols rows row col"
  have rl: "reg_left ?R = (if col = cols - 1 \<and> cols > 1 then max 0 (W - tpx) else p)"
    by (simp add: tile_region_def Let_def p_def)
  have rw: "reg_width ?R = (if col = cols - 1 then W - p else min tpx (W - p))"
    by (simp add: tile_region_def Let_def p_def)
  have nn: "0 \<le> p" unfolding p_def using s col(1) by simp
  have up: "W - ov \<le> cols * (tpx - ov)" unfolding cols by (rule js_ceil_div_upper [OF s])
  have last: "W - tpx \<le> p" if "col = cols - 1"
  proof -
    have "p = cols * (tpx - ov) - (tpx - ov)" unfolding p_def that by (rule pred_mult)
    with up show ?thesis by linarith
  qed
  show ?thesis unfolding rl rw using nn last by auto
qed

lemma tile_region_y_bounds:
  assumes s: "0 < tpx - ov" and rows: "rows = js_ceil_div (H - ov) (tpx - ov)"
    and row: "0 \<le> row" "row < rows"
  shows "0 \<le> reg_top (tile_region W H tpx (tpx - ov) cols rows row col) \<and>
         reg_top (tile_region W H tpx (tpx - ov) cols rows row col) +
           reg_height (tile_region W H tpx (tpx - ov) cols rows row col) \<le> H"
proof -
  define p where "p = row * (tpx - ov)"
  let ?R = "tile_region W H tpx (tpx - ov) cols rows row col"
  have rl: "reg_top ?R = (if row = rows - 1 \<and> rows > 1 then max 0 (H - tpx) else p)"
    by (simp add: tile_region_def Let_def p_def)
  have rw: "reg_height ?R = (if row = rows - 1 then H - p else min tpx (H - p))"
    by (simp add: tile_region_def Let_def p_def)
  have nn: "0 \<le> p" unfolding p_def using s row(1) by simp
  have up: "H - ov \<le> rows * (tpx - ov)" unfolding rows by (rule js_ceil_div_upper [OF s])
  have last: "H - tpx \<le> p" if "row = rows - 1"
  proof -
    have "p = rows * (tpx - ov) - (tpx - ov)" unfolding p_def that by (rule pred_mult)
    with up show ?thesis by linarith
  qed
  show ?thesis unfolding rl rw using nn last by auto
qed

lemma tiles_loop_Inr:
  "tiles_loop enc cells = Inr ts \<Longrightarrow> list_all2 (\<lambda>c t. enc c = Inr t) cells ts"
  by (induction cells arbitrary: ts) (auto split: sum.splits)

lemma tiles_loop_Inl:
  "tiles_loop enc cells = Inl e \<Longrightarrow> \<exists>c \<in> set cells. enc c = Inl e"
  by (induction cells) (auto split: sum.splits)

lemma tiles_loop_fails:
  "c \<in> set cells \<Longrightarrow> enc c = Inl e' \<Longrightarrow> \<exists>e. tiles_loop enc cells = Inl e"
  by (induction cells) (auto split: sum.splits)

lemma length_grid_cells: "length (grid_cells rows cols) = nat rows * nat cols"
  by (simp add: grid_cells_def length_concat comp_def sum_list_triv)

lemma int_range: "(\<exists>i<nat n. r = int i) \<longleftrightarrow> 0 \<le> r \<and> r < n"
proof
  assume "\<exists>i<nat n. r = int i"
  then show "0 \<le> r \<and> r < n" by auto
next
  assume "0 \<le> r \<and> r < n"
  then have "nat r < nat n \<and> r = int (nat r)" by simp
  then show "\<exists>i<nat n. r = int i" by blast
qed

lemma in_grid_cells:
  "(r, c) \<in> set (grid_cells rows cols) \<longleftrightarrow> 0 \<le> r \<and> r < rows \<and> 0 \<le> c \<and> c < cols"
proof -
  have "(r, c) \<in> set (grid_cells rows cols) \<longleftrightarrow> (\<exists>i<nat rows. r = int i) \<and> (\<exists>j<nat cols. c = int j)"
    by (fastforce simp: grid_cells_def)
  then show ?thesis by (simp add: int_range)
qed

lemma encode_tile_rect:
  "encode_tile lib d opts W H s cols rows row col = Inr t \<Longrightarrow>
   tile_rect t =
     (reg_left (tile_region W H (tilePx opts) s cols rows row col),
      reg_top (tile_region W H (tilePx opts) s cols rows row col),
      reg_width (tile_region W H (tilePx opts) s cols rows row col),
      reg_height (tile_region W H (tilePx opts) s cols rows row col))"
  by (auto simp: encode_tile_def Let_def tile_rect_def split: sum.splits)


lemma generateTiles_Inr_cells:
  assumes meta: "sharp_metadata lib None = Some (W, H)"
    and res: "generateTiles lib outputDir options = Inr tiles"
  shows "W \<noteq> 0 \<and> H \<noteq> 0 \<and>
         list_all2
           (\<lambda>c t. (case c of (row, col) \<Rightarrow>
                encode_tile lib outputDir options W H (tilePx options - overlapPx options)
                  (js_ceil_div (W - overlapPx options) (tilePx options - overlapPx options))
                  (js_ceil_div (H - overlapPx options) (tilePx options - overlapPx options)) row col) = Inr t)
           (grid_cells (js_ceil_div (H - overlapPx options) (tilePx options - overlapPx options))
                       (js_ceil_div (W - overlapPx options) (tilePx options - overlapPx options)))
           tiles"
proof -
  from meta res have nz: "W \<noteq> 0 \<and> H \<noteq> 0"
    by (auto simp: generateTiles_def split: if_splits)
  with meta res show ?thesis
    by (auto simp: generateTiles_def Let_def intro: tiles_loop_Inr)
qed

text \<open>
  Claim C4. For a source image of positive width \<open>W\<close> and height \<open>H\<close> and tiling options
  with \<open>overlapPx < tilePx\<close>, every tile region \<open>(x, y, w, h)\<close> in the sequence returned by
  \<open>generateTiles\<close> satisfies \<open>0 \<le> x\<close>, \<open>x + w \<le> W\<close>, \<open>0 \<le> y\<close> and \<open>y + h \<le> H\<close>.
\<close>

theorem generateTiles_regions_in_bounds:
  assumes meta: "sharp_metadata lib None = Some (W, H)"
    and pos: "0 < W" "0 < H"
    and ov: "overlapPx options < tilePx options"
    and res: "generateTiles lib outputDir options = Inr tiles"
  shows "\<forall>t \<in> set tiles. 0 \<le> tile_x t \<and> tile_x t + tile_w t \<le> W \<and>
                           0 \<le> tile_y t \<and> tile_y t + tile_h t \<le> H"
proof
  fix t
  assume t: "t \<in> set tiles"
  let ?s = "tilePx options - overlapPx options"
  let ?cols = "js_ceil_div (W - overlapPx options) ?s"
  let ?rows = "js_ceil_div (H - overlapPx options) ?s"
  from ov have s: "0 < ?s" by simp
  from generateTiles_Inr_cells [OF meta res]
  have all2: "list_all2 (\<lambda>c t. (case c of (row, col) \<Rightarrow>
                encode_tile lib outputDir options W H ?s ?cols ?rows row col) = Inr t)
              (grid_cells ?rows ?cols) tiles" by simp
  from t obtain i where i: "i < length tiles" "tiles ! i = t" by (auto simp: in_set_conv_nth)
  from all2 have len: "length (grid_cells ?rows ?cols) = length tiles"
    by (rule list_all2_lengthD)
  obtain row col where cell: "grid_cells ?rows ?cols ! i = (row, col)"
    by (cases "grid_cells ?rows ?cols ! i")
  from all2 i(1) have "(case grid_cells ?rows ?cols ! i of (row, col) \<Rightarrow>
        encode_tile lib outputDir options W H ?s ?cols ?rows row col) = Inr (tiles ! i)"
    by (rule list_all2_nthD2)
  with cell i(2) have enc: "encode_tile lib outputDir options W H ?s ?cols ?rows row col = Inr t"
    by simp
  have "(row, col) \<in> set (grid_cells ?rows ?cols)"
    using cell i(1) len by (metis nth_mem)
  then have rc: "0 \<le> row" "row < ?rows" "0 \<le> col" "col < ?cols"
    by (simp_all add: in_grid_cells)
  from encode_tile_rect [OF enc]
  have rect: "tile_x t = reg_left (tile_region W H (tilePx options) ?s ?cols ?rows row col)"
             "tile_y t = reg_top (tile_region W H (tilePx options) ?s ?cols ?rows row col)"
             "tile_w t = reg_width (tile_region W H (tilePx options) ?s ?cols ?rows row col)"
             "tile_h t = reg_height (tile_region W H (tilePx options) ?s ?cols ?rows row col)"
    by (simp_all add: tile_rect_def)
  from tile_region_x_bounds [OF s refl rc(3,4), of H ?rows row]
       tile_region_y_bounds [OF s refl rc(1,2), of W ?cols col]
  show "0 \<le> tile_x t \<and> tile_x t + tile_w t \<le> W \<and> 0 \<le> tile_y t \<and> tile_y t + tile_h t \<le> H"
    unfolding rect by simp
qed

text \<open>
  Claim C3, amended. With \<open>overlapPx < tilePx\<close>, \<open>stride = tilePx - overlapPx\<close>,
  \<open>cols = ceil((W - overlapPx) / stride)\<close> and \<open>rows = ceil((H - overlapPx) / stride)\<close>:
  when both \<open>W\<close> and \<open>H\<close> exceed \<open>overlapPx\<close>, \<open>cols\<close> and \<open>rows\<close> are at least 1 and the
  sequence returned by \<open>generateTiles\<close> has exactly \<open>cols * rows\<close> tiles; when \<open>W\<close> or \<open>H\<close> is
  at most \<open>overlapPx\<close>, \<open>cols\<close> or \<open>rows\<close> is at most 0 and the sequence returned is empty.
\<close>

theorem generateTiles_count_amended:
  assumes meta: "sharp_metadata lib None = Some (W, H)"
    and ov: "overlapPx options < tilePx options"
    and res: "generateTiles lib outputDir options = Inr tiles"
  shows "(overlapPx options < W \<and> overlapPx options < H \<longrightarrow>
            1 \<le> js_ceil_div (W - overlapPx options) (tilePx options - overlapPx options) \<and>
            1 \<le> js_ceil_div (H - overlapPx options) (tilePx options - overlapPx options) \<and>
            int (length tiles) =
              js_ceil_div (W - overlapPx options) (tilePx options - overlapPx options) *
              js_ceil_div (H - overlapPx options) (tilePx options - overlapPx options)) \<and>
         (W \<le> overlapPx options \<or> H \<le> overlapPx options \<longrightarrow>
            tiles = [] \<and>
            (js_ceil_div (W - overlapPx options) (tilePx options - overlapPx options) \<le> 0 \<or>
             js_ceil_div (H - overlapPx options) (tilePx options - overlapPx options) \<le> 0))"
proof -
  let ?s = "tilePx options - overlapPx options"
  let ?cols = "js_ceil_div (W - overlapPx options) ?s"
  let ?rows = "js_ceil_div (H - overlapPx options) ?s"
  from ov have s: "0 < ?s" by simp
  from generateTiles_Inr_cells [OF meta res]
  have "length (grid_cells ?rows ?cols) = length tiles"
    by (auto dest: list_all2_lengthD)
  then have len: "length tiles = nat ?rows * nat ?cols" by (simp add: length_grid_cells)
  have c1: "1 \<le> ?cols \<longleftrightarrow> overlapPx options < W"
    using js_ceil_div_ge_1 [OF s, of "W - overlapPx options"] by simp
  have r1: "1 \<le> ?rows \<longleftrightarrow> overlapPx options < H"
    using js_ceil_div_ge_1 [OF s, of "H - overlapPx options"] by simp
  have big: "overlapPx options < W \<and> overlapPx options < H \<longrightarrow>
       1 \<le> ?cols \<and> 1 \<le> ?rows \<and> int (length tiles) = ?cols * ?rows"
    using c1 r1 len by (auto simp: nat_mult_distrib mult.commute)
  have small: "W \<le> overlapPx options \<or> H \<le> overlapPx options \<longrightarrow>
                 tiles = [] \<and> (?cols \<le> 0 \<or> ?rows \<le> 0)"
    using c1 r1 len by auto
  from big small show ?thesis by blast
qed

text \<open>The documented sample: an image of 3840 by 2160 pixels with the default options
  gives 3 columns and 2 rows.\<close>

lemma eval_tiles_3840_length:
  "map_sum id length (generateTiles (demo_sharp 3840 2160 size_small) ''out/tiles'' default_tiling) = Inr 6"
  by code_simp

lemma eval_meta_3840: "sharp_metadata (demo_sharp 3840 2160 size_small) None = Some (3840, 2160)"
  by (simp add: demo_sharp_def)

lemma eval_default_overlap: "overlapPx default_tiling < tilePx default_tiling"
  by (simp add: default_tiling_def)

theorem generateTiles_regions_in_bounds_witness:
  "sharp_metadata (demo_sharp 3840 2160 size_small) None = Some (3840, 2160) \<and>
   overlapPx default_tiling < tilePx default_tiling \<and>
   (\<exists>tiles. generateTiles (demo_sharp 3840 2160 size_small) ''out/tiles'' default_tiling = Inr tiles \<and>
      length tiles = 6 \<and>
      list_all (\<lambda>t. 0 \<le> tile_x t \<and> tile_x t + tile_w t \<le> 3840 \<and>
                     0 \<le> tile_y t \<and> tile_y t + tile_h t \<le> 2160) tiles)"
proof -
  let ?r = "generateTiles (demo_sharp 3840 2160 size_small) ''out/tiles'' default_tiling"
  from eval_tiles_3840_length obtain tiles where tiles: "?r = Inr tiles" "length tiles = 6"
    by (cases ?r) auto
  from generateTiles_regions_in_bounds [OF eval_meta_3840 _ _ eval_default_overlap tiles(1)]
  have "list_all (\<lambda>t. 0 \<le> tile_x t \<and> tile_x t + tile_w t \<le> 3840 \<and>
                     0 \<le> tile_y t \<and> tile_y t + tile_h t \<le> 2160) tiles"
    by (simp add: list_all_iff)
  with tiles eval_meta_3840 eval_default_overlap show ?thesis by blast
qed

text \<open>
  Claim C3 as stated fails: an image of 80 by 60 pixels, smaller than the default overlap
  of 96 pixels, has \<open>cols = rows = 0\<close> and \<open>generateTiles\<close> returns no tile at all.
\<close>

theorem generateTiles_count_counterexample:
  "sharp_metadata (demo_sharp 80 60 size_small) None = Some (80, 60) \<and>
   overlapPx default_tiling < tilePx default_tiling \<and>
   js_ceil_div (80 - overlapPx default_tiling) (tilePx default_tiling - overlapPx default_tiling) = 0 \<and>
   js_ceil_div (60 - overlapPx default_tiling) (tilePx default_tiling - overlapPx default_tiling) = 0 \<and>
   generateTiles (demo_sharp 80 60 size_small) ''out/tiles'' default_tiling = Inr []"
  by code_simp

theorem generateTiles_count_amended_witness:
  "sharp_metadata (demo_sharp 3840 2160 size_small) None = Some (3840, 2160) \<and>
   overlapPx default_tiling < tilePx default_tiling \<and>
   overlapPx default_tiling < 3840 \<and> overlapPx default_tiling < 2160 \<and>
   (\<exists>tiles. generateTiles (demo_sharp 3840 2160 size_small) ''out/tiles'' default_tiling = Inr tiles \<and>
      int (length tiles) = 3 * 2)"
proof -
  let ?r = "generateTiles (demo_sharp 3840 2160 size_small) ''out/tiles'' default_tiling"
  from eval_tiles_3840_length obtain tiles where tiles: "?r = Inr tiles"
    by (cases ?r) auto
  have c: "js_ceil_div (3840 - overlapPx default_tiling) (tilePx default_tiling - overlapPx default_tiling) = 3"
    by (simp add: js_ceil_div_eq default_tiling_def)
  have r: "js_ceil_div (2160 - overlapPx default_tiling) (tilePx default_tiling - overlapPx default_tiling) = 2"
    by (simp add: js_ceil_div_eq default_tiling_def)
  have o: "overlapPx default_tiling < 3840" "overlapPx default_tiling < 2160"
    by (simp_all add: default_tiling_def)
  from generateTiles_count_amended [OF eval_meta_3840 eval_default_overlap tiles] o
  have "int (length tiles) = 3 * 2" unfolding c r by simp
  with tiles eval_meta_3840 eval_default_overlap o show ?thesis by blast
qed

text \<open>
  Claim C1 fails on the code. In the documented sample (3840 by 2160 pixels, tiles of 1536
  pixels, overlap 96) the tiles of the last column are moved to \<open>x = 3840 - 1536 = 2304\<close>
  but keep the width \<open>3840 - 2 * 1440 = 960\<close> computed from the nominal origin, and the
  tiles of the last row are moved to \<open>y = 2160 - 1536 = 624\<close> with height 720: an edge tile
  is not \<open>tilePx\<close> wide or tall, and no longer reaches the edge of the image. Regions are
  listed as \<open>(x, y, w, h)\<close>.
\<close>

theorem generateTiles_edge_tiles_3840:
  "map_sum id (map tile_rect)
     (generateTiles (demo_sharp 3840 2160 size_small) ''out/tiles'' default_tiling) =
   Inr [(0, 0, 1536, 1536), (1440, 0, 1536, 1536), (2304, 0, 960, 1536),
        (0, 624, 1536, 720), (1440, 624, 1536, 720), (2304, 624, 960, 720)]"
  by code_simp

section \<open>The crop planner\<close>

text \<open>
  Claim C7, amended. For an image with \<open>W \<ge> minCropSize\<close> and \<open>H \<ge> minCropSize\<close> the region
  list of the crop planner is the heuristic table filtered in table order by these rules:
  \<open>header\<close>, \<open>top_left\<close>, \<open>top_right\<close>, \<open>center\<close>, \<open>footer\<close> and \<open>bottom_right\<close> are included
  exactly when their computed size is at least \<open>minCropSize * 0.5\<close> (and, for
  \<open>bottom_right\<close>, the image is landscape); \<open>left_edge\<close> and \<open>right_edge\<close> are included
  exactly when the image is landscape and \<open>W \<ge> 1.5 * minCropSize\<close>, whatever their width.
\<close>

theorem generateCropRegions_table:
  assumes "minSize \<le> width" "minSize \<le> height"
  shows "generateCropRegions width height minSize =
         map row_region (filter (included width height minSize) (crop_table width height minSize))"
  using assms
  by (simp add: generateCropRegions_def crop_table_def included_def size_ok_def gate_holds_def Let_def)

text \<open>
  Claim C7 as stated fails: for an image of 1200 by 800 pixels and \<open>minCropSize = 768\<close> the
  planner includes \<open>left_edge\<close> and \<open>right_edge\<close> with a width of 360 pixels, less than
  \<open>768 * 0.5 = 384\<close>; the table filtered by the size rule for every region omits them.
\<close>

theorem generateCropRegions_table_counterexample:
  "generateCropRegions 1200 800 768 =
     [\<lparr>cr_name = ''top_left'', cr_x = 0, cr_y = 0, cr_w = 480, cr_h = 480\<rparr>,
      \<lparr>cr_name = ''top_right'', cr_x = 720, cr_y = 0, cr_w = 480, cr_h = 480\<rparr>,
      \<lparr>cr_name = ''center'', cr_x = 360, cr_y = 160, cr_w = 480, cr_h = 480\<rparr>,
      \<lparr>cr_name = ''left_edge'', cr_x = 0, cr_y = 0, cr_w = 360, cr_h = 800\<rparr>,
      \<lparr>cr_name = ''right_edge'', cr_x = 840, cr_y = 0, cr_w = 360, cr_h = 800\<rparr>] \<and>
   crop_regions_as_claimed 1200 800 768 =
     [\<lparr>cr_name = ''top_left'', cr_x = 0, cr_y = 0, cr_w = 480, cr_h = 480\<rparr>,
      \<lparr>cr_name = ''top_right'', cr_x = 720, cr_y = 0, cr_w = 480, cr_h = 480\<rparr>,
      \<lparr>cr_name = ''center'', cr_x = 360, cr_y = 160, cr_w = 480, cr_h = 480\<rparr>] \<and>
   rat_of_int 360 < rat_of_int 768 * (1 / 2)"
  by code_simp

text \<open>A landscape image of 2000 by 1000 pixels with \<open>minCropSize = 400\<close> has all eight
  regions.\<close>

lemma eval_table_2000:
  "map cr_name (map row_region (filter (included 2000 1000 400) (crop_table 2000 1000 400))) =
     [''header'', ''top_left'', ''top_right'', ''center'', ''footer'', ''bottom_right'',
      ''left_edge'', ''right_edge'']"
  by code_simp

theorem generateCropRegions_table_witness:
  "(400::int) \<le> 2000 \<and> (400::int) \<le> 1000 \<and>
   map cr_name (generateCropRegions 2000 1000 400) =
     [''header'', ''top_left'', ''top_right'', ''center'', ''footer'', ''bottom_right'',
      ''left_edge'', ''right_edge'']"
  using generateCropRegions_table [of 400 2000 1000] eval_table_2000 by simp

section \<open>Crops, file names and failures\<close>

lemma quality_loop_best_pred:
  assumes tr: "\<forall>s q r. run s q = Some r \<longrightarrow> P r"
  shows "(\<forall>r. bestResult st = Some r \<longrightarrow> P r) \<Longrightarrow>
         (\<forall>r. bestResult (quality_loop run mb sf qs st) = Some r \<longrightarrow> P r)"
proof (induction qs arbitrary: st)
  case Nil
  then show ?case by simp
next
  case (Cons q qs)
  show ?case
  proof (cases "run sf q")
    case None
    with Cons.prems show ?thesis by (simp add: record_attempt_def)
  next
    case (Some result)
    with tr have P: "P result" by blast
    let ?st = "(record_attempt sf q (Some result) st)\<lparr>bestResult := Some result\<rparr>"
    have "\<forall>r. bestResult ?st = Some r \<longrightarrow> P r" using P by simp
    then have "\<forall>r. bestResult (quality_loop run mb sf qs ?st) = Some r \<longrightarrow> P r"
      by (rule Cons.IH)
    with Some P show ?thesis by simp
  qed
qed

lemma scale_loop_best_pred:
  assumes tr: "\<forall>s q r. run s q = Some r \<longrightarrow> P r"
  shows "(\<forall>r. bestResult st = Some r \<longrightarrow> P r) \<Longrightarrow>
         (\<forall>r. bestResult (scale_loop run mb sf ns st) = Some r \<longrightarrow> P r)"
proof (induction ns arbitrary: st sf)
  case Nil
  then show ?case by simp
next
  case (Cons n ns)
  let ?st = "quality_loop run mb (min sf n) qualityLevels st"
  have inner: "\<forall>r. bestResult ?st = Some r \<longrightarrow> P r"
    by (rule quality_loop_best_pred [OF tr Cons.prems])
  then have "\<forall>r. bestResult (scale_loop run mb (min sf n) ns ?st) = Some r \<longrightarrow> P r"
    by (rule Cons.IH)
  with inner show ?case by (simp add: Let_def)
qed

lemma encodeToFit_path:
  assumes "encodeToFit lib outputPath options reg = Inr r"
  shows "img_path r = finalOutputPath outputPath (preferFormat options)"
proof -
  let ?fp = "finalOutputPath outputPath (preferFormat options)"
  from assms obtain ow oh where meta: "sharp_metadata lib reg = Some (ow, oh)"
    and best: "bestResult (encode_search lib outputPath options reg ow oh) = Some r"
    by (auto simp: encodeToFit_def split: option.splits)
  have q: "\<forall>s q r. quality_phase_attempt lib ?fp (preferFormat options) reg ow oh s q = Some r \<longrightarrow>
             img_path r = ?fp"
    by (auto simp: quality_phase_attempt_def make_result_def Let_def)
  have s: "\<forall>s q r. scale_phase_attempt lib ?fp (preferFormat options) reg ow oh s q = Some r \<longrightarrow>
             img_path r = ?fp"
    by (auto simp: scale_phase_attempt_def make_result_def Let_def)
  let ?init = "\<lparr>bestResult = None, attempts = []\<rparr>"
  let ?st = "quality_loop (quality_phase_attempt lib ?fp (preferFormat options) reg ow oh)
               (maxBytes options) (initialScale ow oh (maxLongEdge options)) qualityLevels ?init"
  have st: "\<forall>r. bestResult ?st = Some r \<longrightarrow> img_path r = ?fp"
    by (rule quality_loop_best_pred [OF q]) simp
  have sc: "\<forall>r. bestResult (scale_loop (scale_phase_attempt lib ?fp (preferFormat options) reg ow oh)
                (maxBytes options) (initialScale ow oh (maxLongEdge options)) scaleFactors ?st) = Some r
              \<longrightarrow> img_path r = ?fp"
    by (rule scale_loop_best_pred [OF s st])
  from best st sc show ?thesis
    by (simp add: encode_search_def Let_def split: if_splits)
qed

lemma endsWith_append: "endsWith (xs @ suf) suf"
  by (simp add: endsWith_def)

lemma finalOutputPath_crop:
  "finalOutputPath (join d (cropFileName k n fmt)) fmt = join d (cropFileName k n fmt)"
proof -
  have "join d (cropFileName k n fmt) =
        (d @ ''/'' @ ''crop_'' @ show_nat k @ ''_'' @ sanitizeName n) @ (''.'' @ extension fmt)"
    by (simp add: join_def cropFileName_def)
  then show ?thesis
    unfolding finalOutputPath_def using endsWith_append by metis
qed

lemma encode_crop_path:
  "encode_crop lib d opts k r = Inr encoded \<Longrightarrow>
   img_path encoded = join d (cropFileName k (cr_name r) (c_preferFormat opts))"
  unfolding encode_crop_def
  by (drule encodeToFit_path) (simp add: finalOutputPath_crop)

lemma crops_loop_paths:
  "crops_loop lib d opts k rs = (cs, ws) \<Longrightarrow>
   \<forall>i < length cs. crop_path (cs ! i) = join d (cropFileName (k + i) (crop_name (cs ! i)) (c_preferFormat opts))"
proof (induction rs arbitrary: k cs ws)
  case Nil
  then show ?case by simp
next
  case (Cons r rs)
  show ?case
  proof (cases "encode_crop lib d opts k r")
    case (Inl e)
    with Cons.prems obtain ws' where "crops_loop lib d opts k rs = (cs, ws')"
      by (auto split: prod.splits)
    then show ?thesis by (rule Cons.IH)
  next
    case (Inr encoded)
    with Cons.prems obtain cs' where rest: "crops_loop lib d opts (k + 1) rs = (cs', ws)"
      and cs: "cs = make_crop r encoded # cs'"
      by (auto split: prod.splits)
    from Cons.IH [OF rest]
    have ih: "\<forall>i < length cs'. crop_path (cs' ! i) =
                join d (cropFileName (k + 1 + i) (crop_name (cs' ! i)) (c_preferFormat opts))" .
    have hd: "crop_path (make_crop r encoded) =
                join d (cropFileName k (crop_name (make_crop r encoded)) (c_preferFormat opts))"
      using encode_crop_path [OF Inr] by (simp add: make_crop_def)
    show ?thesis
    proof (intro allI impI)
      fix i assume i: "i < length cs"
      show "crop_path (cs ! i) = join d (cropFileName (k + i) (crop_name (cs ! i)) (c_preferFormat opts))"
      proof (cases i)
        case 0
        with hd cs show ?thesis by simp
      next
        case (Suc j)
        with i cs have "j < length cs'" by simp
        with ih have "crop_path (cs' ! j) =
                join d (cropFileName (k + 1 + j) (crop_name (cs' ! j)) (c_preferFormat opts))" by blast
        with Suc cs show ?thesis by simp
      qed
    qed
  qed
qed

text \<open>
  Claim C10. In the sequence returned by \<open>generateCrops\<close>, the crop at position \<open>i\<close> was
  written to \<open>crop_<i>_<name>\<close> (with the extension of the preferred format) in the output
  directory: the index in a file name is the number of crops that encoded before it, so
  the indices of the returned crops are \<open>0, 1, ..., n - 1\<close> without gaps, also when regions
  failed to encode and were dropped.
\<close>

theorem generateCrops_indices_contiguous:
  assumes "generateCrops lib outputDir options = Inr (crops, warnings)"
  shows "\<forall>i < length crops.
           crop_path (crops ! i) =
             join outputDir (cropFileName i (crop_name (crops ! i)) (c_preferFormat options))"
proof -
  from assms obtain W H where
    "crops_loop lib outputDir options 0 (generateCropRegions W H (minCropSize options)) = (crops, warnings)"
    by (auto simp: generateCrops_def split: option.splits if_splits)
  from crops_loop_paths [OF this] show ?thesis by simp
qed

text \<open>With a library that ignores the output path, whether \<open>encodeToFit\<close> fails does not
  depend on the output path.\<close>

lemma strip_path_bytes_eq:
  assumes "strip_path a = strip_path b"
  shows "img_bytes a = img_bytes b"
proof -
  have "img_bytes (strip_path a) = img_bytes (strip_path b)" using assms by simp
  then show ?thesis by (simp add: strip_path_def)
qed

lemma strip_path_within:
  assumes "map_option strip_path a = map_option strip_path b"
  shows "within_budget mb a = within_budget mb b"
proof (cases a)
  case None
  with assms show ?thesis by (cases b) simp_all
next
  case (Some x)
  with assms obtain y where y: "b = Some y" "strip_path x = strip_path y" by (cases b) auto
  from strip_path_bytes_eq [OF y(2)] Some y(1) show ?thesis by (simp add: within_budget_def)
qed

lemma quality_loop_sim:
  assumes sim: "\<forall>s q. map_option strip_path (run1 s q) = map_option strip_path (run2 s q)"
  shows "map_option strip_path (bestResult st1) = map_option strip_path (bestResult st2) \<Longrightarrow>
         map_option strip_path (bestResult (quality_loop run1 mb sf qs st1)) =
         map_option strip_path (bestResult (quality_loop run2 mb sf qs st2))"
proof (induction qs arbitrary: st1 st2)
  case Nil
  then show ?case by simp
next
  case (Cons q qs)
  from sim have eq: "map_option strip_path (run1 sf q) = map_option strip_path (run2 sf q)" by blast
  show ?case
  proof (cases "run1 sf q")
    case None
    with eq have "run2 sf q = None" by simp
    with None Cons.prems show ?thesis by (simp add: record_attempt_def)
  next
    case (Some r1)
    with eq obtain r2 where r2: "run2 sf q = Some r2" "strip_path r1 = strip_path r2"
      by (cases "run2 sf q") auto
    from strip_path_bytes_eq [OF r2(2)] have bytes: "img_bytes r1 = img_bytes r2" .
    let ?st1 = "(record_attempt sf q (Some r1) st1)\<lparr>bestResult := Some r1\<rparr>"
    let ?st2 = "(record_attempt sf q (Some r2) st2)\<lparr>bestResult := Some r2\<rparr>"
    have "map_option strip_path (bestResult ?st1) = map_option strip_path (bestResult ?st2)"
      using r2(2) by simp
    then have "map_option strip_path (bestResult (quality_loop run1 mb sf qs ?st1)) =
               map_option strip_path (bestResult (quality_loop run2 mb sf qs ?st2))"
      by (rule Cons.IH)
    with Some r2 bytes show ?thesis by simp
  qed
qed

lemma scale_loop_sim:
  assumes sim: "\<forall>s q. map_option strip_path (run1 s q) = map_option strip_path (run2 s q)"
  shows "map_option strip_path (bestResult st1) = map_option strip_path (bestResult st2) \<Longrightarrow>
         map_option strip_path (bestResult (scale_loop run1 mb sf ns st1)) =
         map_option strip_path (bestResult (scale_loop run2 mb sf ns st2))"
proof (induction ns arbitrary: st1 st2 sf)
  case Nil
  then show ?case by simp
next
  case (Cons n ns)
  let ?st1 = "quality_loop run1 mb (min sf n) qualityLevels st1"
  let ?st2 = "quality_loop run2 mb (min sf n) qualityLevels st2"
  have inner: "map_option strip_path (bestResult ?st1) = map_option strip_path (bestResult ?st2)"
    by (rule quality_loop_sim [OF sim Cons.prems])
  then have wb: "within_budget mb (bestResult ?st1) = within_budget mb (bestResult ?st2)"
    by (rule strip_path_within)
  from inner have "map_option strip_path (bestResult (scale_loop run1 mb (min sf n) ns ?st1)) =
                   map_option strip_path (bestResult (scale_loop run2 mb (min sf n) ns ?st2))"
    by (rule Cons.IH)
  with inner wb show ?case by (simp add: Let_def)
qed

lemma encode_search_sim:
  assumes "path_independent lib"
  shows "map_option strip_path (bestResult (encode_search lib p opts reg ow oh)) =
         map_option strip_path (bestResult (encode_search lib p' opts reg ow oh))"
proof -
  let ?fmt = "preferFormat opts"
  let ?q1 = "quality_phase_attempt lib (finalOutputPath p ?fmt) ?fmt reg ow oh"
  let ?q2 = "quality_phase_attempt lib (finalOutputPath p' ?fmt) ?fmt reg ow oh"
  let ?s1 = "scale_phase_attempt lib (finalOutputPath p ?fmt) ?fmt reg ow oh"
  let ?s2 = "scale_phase_attempt lib (finalOutputPath p' ?fmt) ?fmt reg ow oh"
  from assms have tf: "\<And>a b pl. sharp_toFile lib a pl = sharp_toFile lib b pl"
    by (simp add: path_independent_def)
  have enc: "run_pipeline lib a pl = run_pipeline lib b pl" for a b pl
  proof -
    have "sharp_toFile lib a pl = sharp_toFile lib b pl" by (rule tf)
    then show ?thesis by (simp only: run_pipeline_def)
  qed
  have q: "\<forall>s q. map_option strip_path (?q1 s q) = map_option strip_path (?q2 s q)"
    by (simp add: quality_phase_attempt_def Let_def option.map_comp comp_def make_result_def
        strip_path_def enc [of "finalOutputPath p ?fmt" _ "finalOutputPath p' ?fmt"])
  have s: "\<forall>s q. map_option strip_path (?s1 s q) = map_option strip_path (?s2 s q)"
    by (simp add: scale_phase_attempt_def Let_def option.map_comp comp_def make_result_def
        strip_path_def enc [of "finalOutputPath p ?fmt" _ "finalOutputPath p' ?fmt"])
  let ?init = "\<lparr>bestResult = None, attempts = []\<rparr>"
  let ?sf = "initialScale ow oh (maxLongEdge opts)"
  let ?st1 = "quality_loop ?q1 (maxBytes opts) ?sf qualityLevels ?init"
  let ?st2 = "quality_loop ?q2 (maxBytes opts) ?sf qualityLevels ?init"
  have inner: "map_option strip_path (bestResult ?st1) = map_option strip_path (bestResult ?st2)"
    by (rule quality_loop_sim [OF q]) simp
  then have wb: "within_budget (maxBytes opts) (bestResult ?st1) =
                 within_budget (maxBytes opts) (bestResult ?st2)"
    by (rule strip_path_within)
  have outer: "map_option strip_path (bestResult (scale_loop ?s1 (maxBytes opts) ?sf scaleFactors ?st1)) =
               map_option strip_path (bestResult (scale_loop ?s2 (maxBytes opts) ?sf scaleFactors ?st2))"
    by (rule scale_loop_sim [OF s inner])
  from inner wb outer show ?thesis by (simp add: encode_search_def Let_def)
qed

lemma encodeToFit_isl_path:
  assumes "path_independent lib"
  shows "isl (encodeToFit lib p opts reg) = isl (encodeToFit lib p' opts reg)"
proof (cases "sharp_metadata lib reg")
  case None
  then show ?thesis by (simp add: encodeToFit_def)
next
  case (Some wh)
  obtain ow oh where wh: "wh = (ow, oh)" by (cases wh)
  from encode_search_sim [OF assms, of p opts reg ow oh p']
  have "(bestResult (encode_search lib p opts reg ow oh) = None) =
        (bestResult (encode_search lib p' opts reg ow oh) = None)"
    by (metis option.map_disc_iff)
  with Some wh show ?thesis by (auto simp: encodeToFit_def split: option.splits)
qed

lemma path_independent_index:
  "path_independent lib \<Longrightarrow> index_independent lib d opts rs"
  unfolding index_independent_def crop_fails_def encode_crop_def
  using encodeToFit_isl_path by blast

lemma demo_sharp_path_independent: "path_independent (demo_sharp W H f)"
  by (simp add: path_independent_def demo_sharp_def)


lemma encode_tile_Inl:
  "encode_tile lib d opts W H (tilePx opts - overlapPx opts)
       (js_ceil_div (W - overlapPx opts) (tilePx opts - overlapPx opts))
       (js_ceil_div (H - overlapPx opts) (tilePx opts - overlapPx opts)) row col = Inl e \<longleftrightarrow>
   tile_encodeToFit lib d opts W H (row, col) = Inl e"
  by (auto simp: encode_tile_def tile_encodeToFit_def Let_def split: sum.splits)

lemma generateTiles_unfold:
  assumes "sharp_metadata lib None = Some (W, H)" "W \<noteq> 0" "H \<noteq> 0"
  shows "generateTiles lib d opts =
         tiles_loop (\<lambda>(row, col). encode_tile lib d opts W H (tilePx opts - overlapPx opts)
             (js_ceil_div (W - overlapPx opts) (tilePx opts - overlapPx opts))
             (js_ceil_div (H - overlapPx opts) (tilePx opts - overlapPx opts)) row col)
           (tile_grid opts W H)"
  using assms by (simp add: generateTiles_def tile_grid_def Let_def)

lemma crops_loop_lengths:
  "crops_loop lib d opts k rs = (cs, ws) \<Longrightarrow> length cs + length ws = length rs"
proof (induction rs arbitrary: k cs ws)
  case Nil
  then show ?case by simp
next
  case (Cons r rs)
  show ?case
  proof (cases "encode_crop lib d opts k r")
    case (Inl e)
    with Cons.prems obtain ws' where "crops_loop lib d opts k rs = (cs, ws')" "ws = (cr_name r, e) # ws'"
      by (auto split: prod.splits)
    with Cons.IH [of k cs ws'] show ?thesis by simp
  next
    case (Inr encoded)
    with Cons.prems obtain cs' where "crops_loop lib d opts (k + 1) rs = (cs', ws)"
      "cs = make_crop r encoded # cs'"
      by (auto split: prod.splits)
    with Cons.IH [of "k + 1" cs' ws] show ?thesis by simp
  qed
qed

lemma region_of_make_crop: "region_of (make_crop r encoded) = r"
  by (simp add: region_of_def make_crop_def)

lemma crops_loop_filter:
  "index_independent lib d opts rs \<Longrightarrow> crops_loop lib d opts k rs = (cs, ws) \<Longrightarrow>
   map region_of cs = filter (\<lambda>r. \<not> crop_fails lib d opts r) rs \<and>
   map fst ws = map cr_name (filter (crop_fails lib d opts) rs)"
proof (induction rs arbitrary: k cs ws)
  case Nil
  then show ?case by simp
next
  case (Cons r rs)
  from Cons.prems(1) have ind: "index_independent lib d opts rs"
    and here: "isl (encode_crop lib d opts k r) = crop_fails lib d opts r"
    by (simp_all add: index_independent_def)
  show ?case
  proof (cases "encode_crop lib d opts k r")
    case (Inl e)
    with here have f: "crop_fails lib d opts r" by simp
    from Inl Cons.prems(2) obtain ws' where rest: "crops_loop lib d opts k rs = (cs, ws')"
      and ws: "ws = (cr_name r, e) # ws'"
      by (auto split: prod.splits)
    from Cons.IH [OF ind rest] f ws show ?thesis by simp
  next
    case (Inr encoded)
    with here have f: "\<not> crop_fails lib d opts r" by simp
    from Inr Cons.prems(2) obtain cs' where rest: "crops_loop lib d opts (k + 1) rs = (cs', ws)"
      and cs: "cs = make_crop r encoded # cs'"
      by (auto split: prod.splits)
    from Cons.IH [OF ind rest] f cs show ?thesis by (simp add: region_of_make_crop)
  qed
qed

text \<open>
  Claim C8. For an image with non-zero dimensions: an error that \<open>generateTiles\<close> raises is
  the error raised by \<open>encodeToFit\<close> for one of the tiles of the grid, unchanged, and as soon
  as the encoding of any single tile fails, \<open>generateTiles\<close> raises and returns no tiles.
  \<open>generateCrops\<close> on the contrary always returns: every region of the plan ends either as
  a crop or as a warning, and (the failure of a region not depending on the index in its
  file name) the crops are exactly the regions whose encoding succeeded, in plan order,
  and the warnings name exactly the regions whose encoding failed.
\<close>

theorem encoder_errors_tiles_versus_crops:
  assumes meta: "sharp_metadata lib None = Some (W, H)" and nz: "W \<noteq> 0" "H \<noteq> 0"
  shows "(\<forall>e. generateTiles lib tilesDir topts = Inl e \<longrightarrow>
            (\<exists>cell \<in> set (tile_grid topts W H). tile_encodeToFit lib tilesDir topts W H cell = Inl e)) \<and>
         (\<forall>cell \<in> set (tile_grid topts W H).
            isl (tile_encodeToFit lib tilesDir topts W H cell) \<longrightarrow> isl (generateTiles lib tilesDir topts)) \<and>
         (\<exists>crops warnings.
            generateCrops lib cropsDir copts = Inr (crops, warnings) \<and>
            length crops + length warnings = length (generateCropRegions W H (minCropSize copts)) \<and>
            (index_independent lib cropsDir copts (generateCropRegions W H (minCropSize copts)) \<longrightarrow>
               map region_of crops =
                 filter (\<lambda>r. \<not> crop_fails lib cropsDir copts r) (generateCropRegions W H (minCropSize copts)) \<and>
               map fst warnings =
                 map cr_name (filter (crop_fails lib cropsDir copts)
                                (generateCropRegions W H (minCropSize copts)))))"
proof -
  let ?enc = "\<lambda>(row, col). encode_tile lib tilesDir topts W H (tilePx topts - overlapPx topts)
             (js_ceil_div (W - overlapPx topts) (tilePx topts - overlapPx topts))
             (js_ceil_div (H - overlapPx topts) (tilePx topts - overlapPx topts)) row col"
  have gt: "generateTiles lib tilesDir topts = tiles_loop ?enc (tile_grid topts W H)"
    by (rule generateTiles_unfold [OF meta nz])
  have enc: "\<And>cell e. ?enc cell = Inl e \<longleftrightarrow> tile_encodeToFit lib tilesDir topts W H cell = Inl e"
    by (auto simp: encode_tile_Inl split: prod.splits)
  have t1: "\<forall>e. generateTiles lib tilesDir topts = Inl e \<longrightarrow>
            (\<exists>cell \<in> set (tile_grid topts W H). tile_encodeToFit lib tilesDir topts W H cell = Inl e)"
  proof (intro allI impI)
    fix e assume "generateTiles lib tilesDir topts = Inl e"
    with gt have "tiles_loop ?enc (tile_grid topts W H) = Inl e" by simp
    then obtain cell where "cell \<in> set (tile_grid topts W H)" "?enc cell = Inl e"
      using tiles_loop_Inl by blast
    with enc show "\<exists>cell \<in> set (tile_grid topts W H). tile_encodeToFit lib tilesDir topts W H cell = Inl e"
      by blast
  qed
  have t2: "\<forall>cell \<in> set (tile_grid topts W H).
            isl (tile_encodeToFit lib tilesDir topts W H cell) \<longrightarrow> isl (generateTiles lib tilesDir topts)"
  proof (intro ballI impI)
    fix cell assume c: "cell \<in> set (tile_grid topts W H)"
      and "isl (tile_encodeToFit lib tilesDir topts W H cell)"
    then obtain e' where "tile_encodeToFit lib tilesDir topts W H cell = Inl e'"
      by (auto simp: isl_def)
    with enc have "?enc cell = Inl e'" by blast
    with c obtain e where "tiles_loop ?enc (tile_grid topts W H) = Inl e"
      using tiles_loop_fails by blast
    with gt show "isl (generateTiles lib tilesDir topts)" by simp
  qed
  let ?rs = "generateCropRegions W H (minCropSize copts)"
  obtain crops warnings where loop: "crops_loop lib cropsDir copts 0 ?rs = (crops, warnings)"
    by (cases "crops_loop lib cropsDir copts 0 ?rs")
  have gc: "generateCrops lib cropsDir copts = Inr (crops, warnings)"
    using meta nz loop by (simp add: generateCrops_def)
  have len: "length crops + length warnings = length ?rs"
    by (rule crops_loop_lengths [OF loop])
  have flt: "index_independent lib cropsDir copts ?rs \<longrightarrow>
               map region_of crops = filter (\<lambda>r. \<not> crop_fails lib cropsDir copts r) ?rs \<and>
               map fst warnings = map cr_name (filter (crop_fails lib cropsDir copts) ?rs)"
    using crops_loop_filter [OF _ loop] by blast
  from t1 t2 gc len flt show ?thesis by blast
qed

text \<open>An image of 3840 by 2160 pixels whose encoder throws for the tile of row 0, column 1
  (at \<open>x = 1440\<close>) and for the crop \<open>center\<close> (at \<open>x = 1536\<close>).\<close>

lemma eval_fail_meta:
  "sharp_metadata (demo_sharp 3840 2160 size_fail_middle) None = Some (3840, 2160)"
  by (simp add: demo_sharp_def)

lemma eval_fail_tile:
  "(0, 1) \<in> set (tile_grid default_tiling 3840 2160) \<and>
   tile_encodeToFit (demo_sharp 3840 2160 size_fail_middle) ''out/tiles'' default_tiling 3840 2160 (0, 1) =
     Inl (EncodeFailed 4000000)"
  by code_simp

lemma eval_fail_crops:
  "map_sum id (\<lambda>cw. (map crop_path (fst cw), snd cw))
     (generateCrops (demo_sharp 3840 2160 size_fail_middle) ''out/crops'' default_crops) =
   Inr ([''out/crops/crop_0_header.webp'', ''out/crops/crop_1_top_left.webp'',
         ''out/crops/crop_2_top_right.webp'', ''out/crops/crop_3_footer.webp'',
         ''out/crops/crop_4_bottom_right.webp'', ''out/crops/crop_5_left_edge.webp'',
         ''out/crops/crop_6_right_edge.webp''],
        [(''center'', EncodeFailed 4000000)])"
  by code_simp

theorem encoder_errors_tiles_versus_crops_witness:
  "sharp_metadata (demo_sharp 3840 2160 size_fail_middle) None = Some (3840, 2160) \<and>
   index_independent (demo_sharp 3840 2160 size_fail_middle) ''out/crops'' default_crops
     (generateCropRegions 3840 2160 (minCropSize default_crops)) \<and>
   isl (tile_encodeToFit (demo_sharp 3840 2160 size_fail_middle) ''out/tiles'' default_tiling 3840 2160 (0, 1)) \<and>
   isl (generateTiles (demo_sharp 3840 2160 size_fail_middle) ''out/tiles'' default_tiling) \<and>
   (\<exists>crops warnings.
      generateCrops (demo_sharp 3840 2160 size_fail_middle) ''out/crops'' default_crops = Inr (crops, warnings) \<and>
      length crops = 7 \<and> warnings = [(''center'', EncodeFailed 4000000)] \<and>
      map region_of crops =
        filter (\<lambda>r. \<not> crop_fails (demo_sharp 3840 2160 size_fail_middle) ''out/crops'' default_crops r)
          (generateCropRegions 3840 2160 (minCropSize default_crops)))"
proof -
  let ?lib = "demo_sharp 3840 2160 size_fail_middle"
  let ?rs = "generateCropRegions 3840 2160 (minCropSize default_crops)"
  have ind: "index_independent ?lib ''out/crops'' default_crops ?rs"
    by (rule path_independent_index [OF demo_sharp_path_independent])
  from eval_fail_tile have cell: "(0, 1) \<in> set (tile_grid default_tiling 3840 2160)"
    and fail: "isl (tile_encodeToFit ?lib ''out/tiles'' default_tiling 3840 2160 (0, 1))"
    by simp_all
  note inst = encoder_errors_tiles_versus_crops [OF eval_fail_meta, of "''out/tiles''" default_tiling
      "''out/crops''" default_crops]
  from inst cell fail have tiles: "isl (generateTiles ?lib ''out/tiles'' default_tiling)" by auto
  from inst ind obtain crops warnings where
    gc: "generateCrops ?lib ''out/crops'' default_crops = Inr (crops, warnings)"
    and flt: "map region_of crops = filter (\<lambda>r. \<not> crop_fails ?lib ''out/crops'' default_crops r) ?rs"
    by auto
  from gc eval_fail_crops have "map crop_path crops = [''out/crops/crop_0_header.webp'', ''out/crops/crop_1_top_left.webp'',
         ''out/crops/crop_2_top_right.webp'', ''out/crops/crop_3_footer.webp'',
         ''out/crops/crop_4_bottom_right.webp'', ''out/crops/crop_5_left_edge.webp'',
         ''out/crops/crop_6_right_edge.webp'']" and w: "warnings = [(''center'', EncodeFailed 4000000)]"
    by simp_all
  then have "length (map crop_path crops) = 7" by simp
  then have len: "length crops = 7" by simp
  from eval_fail_meta ind fail tiles gc len w flt show ?thesis
    by (intro conjI exI [of _ crops] exI [of _ warnings])
qed

theorem generateCrops_indices_contiguous_witness:
  "\<exists>crops warnings.
      generateCrops (demo_sharp 3840 2160 size_fail_middle) ''out/crops'' default_crops = Inr (crops, warnings) \<and>
      map fst warnings = [''center''] \<and>
      map crop_path crops =
        [''out/crops/crop_0_header.webp'', ''out/crops/crop_1_top_left.webp'',
         ''out/crops/crop_2_top_right.webp'', ''out/crops/crop_3_footer.webp'',
         ''out/crops/crop_4_bottom_right.webp'', ''out/crops/crop_5_left_edge.webp'',
         ''out/crops/crop_6_right_edge.webp''] \<and>
      crop_path (crops ! 3) = join ''out/crops'' (cropFileName 3 (crop_name (crops ! 3)) Webp)"
proof -
  let ?r = "generateCrops (demo_sharp 3840 2160 size_fail_middle) ''out/crops'' default_crops"
  from eval_fail_crops obtain crops warnings where gc: "?r = Inr (crops, warnings)"
    by (cases ?r) auto
  with eval_fail_crops have paths: "map crop_path crops =
        [''out/crops/crop_0_header.webp'', ''out/crops/crop_1_top_left.webp'',
         ''out/crops/crop_2_top_right.webp'', ''out/crops/crop_3_footer.webp'',
         ''out/crops/crop_4_bottom_right.webp'', ''out/crops/crop_5_left_edge.webp'',
         ''out/crops/crop_6_right_edge.webp'']" and w: "map fst warnings = [''center'']"
    by simp_all
  then have "length (map crop_path crops) = 7" by simp
  then have len: "3 < length crops" by simp
  from generateCrops_indices_contiguous [OF gc] len
  have "crop_path (crops ! 3) = join ''out/crops'' (cropFileName 3 (crop_name (crops ! 3)) (c_preferFormat default_crops))"
    by blast
  then have "crop_path (crops ! 3) = join ''out/crops'' (cropFileName 3 (crop_name (crops ! 3)) Webp)"
    by (simp add: default_crops_def)
  with gc paths w show ?thesis
    by (intro conjI exI [of _ crops] exI [of _ warnings])
qed

end
